theory Spec2Isabelle
  imports Main "HOL-Library.Sublist" "HOL-Library.List_Lexorder" "HOL-Library.Char_ord"
begin

section \<open>The SBOM graph fragment: pkg/sbom/nodelist.go\<close>

text \<open>
  A NodeList holds pointers to nodes and edges. In this embedding a pointer held by a
  slice is the position of its slot: every slot of a slice is taken to hold its own
  object, and the two NodeLists of a binary operation share no object. A slice is a
  list (a nil slice and an empty slice are the same list). The elements of a slice are
  non-nil. The operations are first defined on non-nil NodeLists, except where the
  source tests for nil (the receiver of GetNodesByPurlType, the argument of Equal),
  which is an \<open>option\<close>; the last subsection gives every exported operation as it
  is called through pointers, where a nil receiver or argument is \<open>None\<close> and its
  dereference is a panic.
\<close>

subsection \<open>Data model\<close>

text \<open>
  The struct declarations live in generated code outside this file; the fields below
  are the ones nodelist.go reads: \<open>n.Id\<close>, \<open>n.Name\<close>, \<open>n.Identifiers[j].Type/.Value\<close>
  (a pair here), \<open>e.Type\<close>, \<open>e.From\<close>, \<open>e.To\<close>. \<open>Edge_Type\<close> is a protobuf
  enumeration, an integer tag of which only equality and \<open>String()\<close> are used.
  The field \<open>Id\<close> is \<open>Id'\<close> here (\<open>Id\<close> is the identity relation).
\<close>

record Node =
  Id' :: string
  Name :: string
  Identifiers :: "(string \<times> string) list"

type_synonym Edge_Type = int

record Edge =
  Type :: Edge_Type
  From :: string
  To :: "string list"

record NodeList =
  Nodes :: "Node list"
  Edges :: "Edge list"
  RootElements :: "string list"

text \<open>
  The ways a call can fail: the error that RelateNodeListAtID returns, and the two
  panics the operations can run into, an index out of range and the dereference of a
  nil pointer.
\<close>

datatype error = NotFound string | IndexOutOfRange | NilDereference

subsection \<open>Go maps\<close>

text \<open>
  A Go map is an association list with distinct keys, in order of first insertion.
  Reading a missing key gives the zero value of the value type (\<open>gm_get\<close> takes it as
  its first argument). \<open>range\<close> over a map visits the entries in an order Go leaves
  unspecified: \<open>range_order seed\<close> picks the visiting order from a seed, every seed
  giving a permutation of the entries; the operations take one seed for each
  \<open>range\<close> over a map they execute.
\<close>

type_synonym ('k, 'v) gomap = "('k \<times> 'v) list"

fun gm_store :: "'k \<Rightarrow> 'v \<Rightarrow> ('k, 'v) gomap \<Rightarrow> ('k, 'v) gomap" where
  "gm_store k v [] = [(k, v)]"
| "gm_store k v ((k', v') # m) = (if k' = k then (k, v) # m else (k', v') # gm_store k v m)"

definition gm_has :: "'k \<Rightarrow> ('k, 'v) gomap \<Rightarrow> bool" where
  "gm_has k m = (map_of m k \<noteq> None)"

definition gm_get :: "'v \<Rightarrow> ('k, 'v) gomap \<Rightarrow> 'k \<Rightarrow> 'v" where
  "gm_get zero m k = (case map_of m k of None \<Rightarrow> zero | Some v \<Rightarrow> v)"

definition gm_keys :: "('k, 'v) gomap \<Rightarrow> 'k list" where
  "gm_keys m = map fst m"

fun range_order :: "nat list \<Rightarrow> 'a list \<Rightarrow> 'a list" where
  "range_order seed [] = []"
| "range_order [] xs = xs"
| "range_order (s # seed) xs =
     (let i = s mod length xs in xs ! i # range_order seed (take i xs @ drop (Suc i) xs))"

subsection \<open>Node and Edge methods that nodelist.go calls\<close>

text \<open>
  Modelled from the spec: \<open>Node.Copy\<close> and \<open>Edge.Copy\<close> (node.go and edge.go are not
  under src). The spec's deep clone gives a fully independent copy; on values it
  returns the same fields.
\<close>

definition Node_Copy :: "Node \<Rightarrow> Node" where
  "Node_Copy n = \<lparr>Id' = Id' n, Name = Name n, Identifiers = Identifiers n\<rparr>"

definition Edge_Copy :: "Edge \<Rightarrow> Edge" where
  "Edge_Copy e = \<lparr>Type = Type e, From = From e, To = To e\<rparr>"

text \<open>
  Modelled from the spec: \<open>Edge.PointsTo\<close>, the destination-membership test of an edge.
\<close>

definition PointsTo :: "Edge \<Rightarrow> string \<Rightarrow> bool" where
  "PointsTo e to = (to \<in> set (To e))"

text \<open>
  Modelled from the spec: \<open>Node.Update\<close>, the overlay merge (incoming fields replace the
  receiver's), and \<open>Node.Augment\<close>, the gap-fill merge (incoming fields fill only unset
  receiver fields); a string or list field is unset when it is empty. The operations
  below take the two merge policies as parameters \<open>upd\<close> and \<open>aug\<close>; these two
  definitions are the instances used at concrete inputs.
\<close>

definition Node_Update :: "Node \<Rightarrow> Node \<Rightarrow> Node" where
  "Node_Update n n2 = \<lparr>Id' = Id' n2, Name = Name n2, Identifiers = Identifiers n2\<rparr>"

definition Node_Augment :: "Node \<Rightarrow> Node \<Rightarrow> Node" where
  "Node_Augment n n2 =
     \<lparr>Id' = (if Id' n = [] then Id' n2 else Id' n),
      Name = (if Name n = [] then Name n2 else Name n),
      Identifiers = (if Identifiers n = [] then Identifiers n2 else Identifiers n)\<rparr>"

text \<open>
  Modelled from the spec: \<open>Node.Purl\<close>, the package-url accessor. The comment of
  GetNodesByIdentifier gives a package url as the value of an identifier of type
  \<open>purl\<close>; the accessor returns the first such value, and the empty string when
  there is none. GetNodesByPurlType takes the accessor as a parameter \<open>purl\<close>.
\<close>

fun Node_Purl_of :: "(string \<times> string) list \<Rightarrow> string" where
  "Node_Purl_of [] = []"
| "Node_Purl_of ((t, v) # ids) = (if t = ''purl'' then v else Node_Purl_of ids)"

definition Node_Purl :: "Node \<Rightarrow> string" where
  "Node_Purl n = Node_Purl_of (Identifiers n)"

subsection \<open>Indexing\<close>

text \<open>indexNodes: \<open>ret[n.Id] = n\<close> for each node in turn; a later node of the same id
  replaces the earlier one.\<close>

type_synonym nodeIndex = "(string, nat) gomap"
type_synonym edgeIndex = "(string, (Edge_Type, nat list) gomap) gomap"
type_synonym rootElementsIndex = "(string, unit) gomap"

fun indexNodes_from :: "nat \<Rightarrow> Node list \<Rightarrow> nodeIndex \<Rightarrow> nodeIndex" where
  "indexNodes_from i [] ret = ret"
| "indexNodes_from i (n # ns) ret = indexNodes_from (Suc i) ns (gm_store (Id' n) i ret)"

definition indexNodes :: "NodeList \<Rightarrow> nodeIndex" where
  "indexNodes nl = indexNodes_from 0 (Nodes nl) []"

fun indexEdges_from :: "nat \<Rightarrow> Edge list \<Rightarrow> edgeIndex \<Rightarrow> edgeIndex" where
  "indexEdges_from i [] index = index"
| "indexEdges_from i (e # es) index =
     (let index1 = (if \<not> gm_has (From e) index then gm_store (From e) [] index else index);
          inner = gm_get [] index1 (From e)
      in if \<not> gm_has (Type e) inner
         then indexEdges_from (Suc i) es (gm_store (From e) (gm_store (Type e) [i] inner) index1)
         else indexEdges_from (Suc i) es
                (gm_store (From e) (gm_store (Type e) (gm_get [] inner (Type e) @ [i]) inner) index1))"

definition indexEdges :: "NodeList \<Rightarrow> edgeIndex" where
  "indexEdges nl = indexEdges_from 0 (Edges nl) []"

definition indexRootElements :: "NodeList \<Rightarrow> rootElementsIndex" where
  "indexRootElements nl = fold (\<lambda>rid index. gm_store rid () index) (RootElements nl) []"

subsection \<open>Edge sanitation\<close>

text \<open>
  \<open>tstr\<close> is \<open>Edge_Type.String()\<close>, generated code outside src. The loop body of
  cleanEdges is \<open>cleanEdges_step\<close>; the state is the pair (seenCache, newTos). The
  inner map of newTos is a reference in Go, so storing into it updates the entry of
  newTos in place.
\<close>

definition edgeKey :: "(Edge_Type \<Rightarrow> string) \<Rightarrow> Edge \<Rightarrow> string" where
  "edgeKey tstr edge = From edge @ ''+++'' @ tstr (Type edge)"

definition cleanEdges_step ::
  "nodeIndex \<Rightarrow> (Edge_Type \<Rightarrow> string) \<Rightarrow> Edge \<Rightarrow>
   (string, Edge) gomap \<times> (string, (string, string) gomap) gomap \<Rightarrow>
   (string, Edge) gomap \<times> (string, (string, string) gomap) gomap" where
  "cleanEdges_step nodeIndex tstr edge st =
     (case st of (seenCache, newTos) \<Rightarrow>
        if \<not> gm_has (From edge) nodeIndex then (seenCache, newTos)
        else
          let k = edgeKey tstr edge;
              newTos1 = (if \<not> gm_has k newTos then gm_store k [] newTos else newTos);
              seenCache1 = (if \<not> gm_has k seenCache
                            then gm_store k \<lparr>Type = Type edge, From = From edge, To = []\<rparr> seenCache
                            else seenCache);
              tos = fold (\<lambda>s m. if \<not> gm_has s nodeIndex then m else gm_store s s m)
                      (To edge) (gm_get [] newTos1 k)
          in (seenCache1, gm_store k tos newTos1))"

definition cleanEdges ::
  "(Edge_Type \<Rightarrow> string) \<Rightarrow> nat list \<Rightarrow> (string \<Rightarrow> nat list) \<Rightarrow> NodeList \<Rightarrow> NodeList" where
  "cleanEdges tstr rk rt nl =
     (let nodeIndex = indexNodes nl;
          st = fold (cleanEdges_step nodeIndex tstr) (Edges nl) ([], []);
          seenCache = fst st;
          newTos = snd st;
          newEdges = map (\<lambda>(f, e). e\<lparr>To := To e @ range_order (rt f) (gm_keys (gm_get [] newTos f))\<rparr>)
                       (range_order rk seenCache)
      in nl\<lparr>Edges := newEdges\<rparr>)"

subsection \<open>AddEdge, AddNode\<close>

definition AddEdge :: "NodeList \<Rightarrow> Edge \<Rightarrow> NodeList" where
  "AddEdge nl e = nl\<lparr>Edges := Edges nl @ [e]\<rparr>"

definition AddNode :: "NodeList \<Rightarrow> Node \<Rightarrow> NodeList" where
  "AddNode nl n = nl\<lparr>Nodes := Nodes nl @ [n]\<rparr>"

subsection \<open>Add\<close>

text \<open>
  The node loop of Add: \<open>n\<close> is the node the index holds for the id of
  \<open>nl2.Nodes[i]\<close>, and \<open>existingNodes[nl2.Nodes[i].Id].Augment(n)\<close> passes that same
  node as the argument. The index is built once, before the loop.
\<close>

fun Add_nodes :: "(Node \<Rightarrow> Node \<Rightarrow> Node) \<Rightarrow> nodeIndex \<Rightarrow> Node list \<Rightarrow> Node list \<Rightarrow> Node list" where
  "Add_nodes aug existingNodes [] ns = ns"
| "Add_nodes aug existingNodes (n2 # rest) ns =
     (case map_of existingNodes (Id' n2) of
        Some i \<Rightarrow> Add_nodes aug existingNodes rest (ns[i := aug (ns ! i) (ns ! i)])
      | None \<Rightarrow> Add_nodes aug existingNodes rest (ns @ [n2]))"

text \<open>The edge loop of Add; \<open>[0]\<close> on an empty slice would panic.\<close>

fun Add_edges :: "edgeIndex \<Rightarrow> Edge list \<Rightarrow> Edge list \<Rightarrow> error + Edge list" where
  "Add_edges existingEdges [] es = Inr es"
| "Add_edges existingEdges (e2 # rest) es =
     (if \<not> gm_has (From e2) existingEdges then Add_edges existingEdges rest (es @ [e2])
      else if \<not> gm_has (Type e2) (gm_get [] existingEdges (From e2))
      then Add_edges existingEdges rest (es @ [e2])
      else (case gm_get [] (gm_get [] existingEdges (From e2)) (Type e2) of
              [] \<Rightarrow> Inl IndexOutOfRange
            | i # _ \<Rightarrow>
                Add_edges existingEdges rest (es[i := (es ! i)\<lparr>To := To (es ! i) @ To e2\<rparr>])))"

definition Add_roots :: "rootElementsIndex \<Rightarrow> string list \<Rightarrow> string list \<Rightarrow> string list" where
  "Add_roots rootElements ids2 roots =
     fold (\<lambda>rid rs. if \<not> gm_has rid rootElements then rs @ [rid] else rs) ids2 roots"

definition Add ::
  "(Node \<Rightarrow> Node \<Rightarrow> Node) \<Rightarrow> (Edge_Type \<Rightarrow> string) \<Rightarrow> nat list \<Rightarrow> (string \<Rightarrow> nat list) \<Rightarrow>
   NodeList \<Rightarrow> NodeList \<Rightarrow> error + NodeList" where
  "Add aug tstr rk rt nl nl2 =
     (let nodes' = Add_nodes aug (indexNodes nl) (Nodes nl2) (Nodes nl) in
      case Add_edges (indexEdges nl) (Edges nl2) (Edges nl) of
        Inl err \<Rightarrow> Inl err
      | Inr edges' \<Rightarrow>
          let roots' = Add_roots (indexRootElements nl) (RootElements nl2) (RootElements nl)
          in Inr (cleanEdges tstr rk rt \<lparr>Nodes = nodes', Edges = edges', RootElements = roots'\<rparr>))"

subsection \<open>RemoveNodes\<close>

definition RemoveNodes ::
  "(Edge_Type \<Rightarrow> string) \<Rightarrow> nat list \<Rightarrow> (string \<Rightarrow> nat list) \<Rightarrow> NodeList \<Rightarrow> string list \<Rightarrow> NodeList" where
  "RemoveNodes tstr rk rt nl ids =
     (let idDict = fold (\<lambda>i d. gm_store i () d) ids [];
          newNodeList = filter (\<lambda>n. \<not> gm_has (Id' n) idDict) (Nodes nl)
      in cleanEdges tstr rk rt (nl\<lparr>Nodes := newNodeList\<rparr>))"

subsection \<open>GetEdgeByType, copyEdgeList\<close>

text \<open>GetEdgeByType returns a pointer to the first matching edge: its position, or
  \<open>None\<close> for nil.\<close>

fun GetEdgeByType_from :: "nat \<Rightarrow> Edge list \<Rightarrow> string \<Rightarrow> Edge_Type \<Rightarrow> nat option" where
  "GetEdgeByType_from i [] fromElement t = None"
| "GetEdgeByType_from i (e # es) fromElement t =
     (if From e = fromElement \<and> Type e = t then Some i
      else GetEdgeByType_from (Suc i) es fromElement t)"

definition GetEdgeByType :: "NodeList \<Rightarrow> string \<Rightarrow> Edge_Type \<Rightarrow> nat option" where
  "GetEdgeByType nl fromElement t = GetEdgeByType_from 0 (Edges nl) fromElement t"

definition copyEdgeList :: "Edge list \<Rightarrow> Edge list" where
  "copyEdgeList original = fold (\<lambda>e nodeCopy. nodeCopy @ [Edge_Copy e]) original []"

subsection \<open>Intersect\<close>

text \<open>The body of the loop over the entries of \<open>ni1\<close>: \<open>p\<close> is the node the index
  holds for the id \<open>nid\<close>.\<close>

definition Intersect_node ::
  "(Node \<Rightarrow> Node \<Rightarrow> Node) \<Rightarrow> NodeList \<Rightarrow> NodeList \<Rightarrow> nodeIndex \<Rightarrow>
   rootElementsIndex \<Rightarrow> rootElementsIndex \<Rightarrow> string \<times> nat \<Rightarrow> NodeList \<Rightarrow> NodeList" where
  "Intersect_node upd nl nl2 ni2 rootElements rootElements2 entry ret =
     (case entry of (nid, p) \<Rightarrow>
        (case map_of ni2 nid of
           None \<Rightarrow> ret
         | Some p2 \<Rightarrow>
             let newnode = upd (Node_Copy (Nodes nl ! p)) (Nodes nl2 ! p2);
                 ret1 = ret\<lparr>Nodes := Nodes ret @ [newnode]\<rparr>
             in if gm_has nid rootElements \<or> gm_has nid rootElements2
                then ret1\<lparr>RootElements := RootElements ret1 @ [nid]\<rparr>
                else ret1))"

text \<open>The body of the loop over \<open>nl2.Edges\<close>; \<open>invDict\<close> is built from the
  destinations the existing edge has before the inner loop starts.\<close>

definition Intersect_edge :: "Edge \<Rightarrow> NodeList \<Rightarrow> NodeList" where
  "Intersect_edge e ret =
     (case GetEdgeByType ret (From e) (Type e) of
        None \<Rightarrow> ret\<lparr>Edges := Edges ret @ [Edge_Copy e]\<rparr>
      | Some i \<Rightarrow>
          let existingEdge = Edges ret ! i;
              invDict = fold (\<lambda>t d. gm_store t () d) (To existingEdge) [];
              tos = fold (\<lambda>to acc. if \<not> gm_has to invDict then acc @ [to] else acc)
                      (To e) (To existingEdge)
          in ret\<lparr>Edges := (Edges ret)[i := existingEdge\<lparr>To := tos\<rparr>]\<rparr>)"

definition Intersect ::
  "(Node \<Rightarrow> Node \<Rightarrow> Node) \<Rightarrow> (Edge_Type \<Rightarrow> string) \<Rightarrow> nat list \<Rightarrow> nat list \<Rightarrow>
   (string \<Rightarrow> nat list) \<Rightarrow> NodeList \<Rightarrow> NodeList \<Rightarrow> NodeList" where
  "Intersect upd tstr rn rk rt nl nl2 =
     (let rootElements = indexRootElements nl;
          rootElements2 = indexRootElements nl2;
          ret0 = \<lparr>Nodes = [], Edges = copyEdgeList (Edges nl), RootElements = []\<rparr>;
          ni1 = indexNodes nl;
          ni2 = indexNodes nl2;
          ret1 = fold (Intersect_node upd nl nl2 ni2 rootElements rootElements2)
                   (range_order rn ni1) ret0;
          ret2 = fold Intersect_edge (Edges nl2) ret1
      in cleanEdges tstr rk rt ret2)"

subsection \<open>Union\<close>

text \<open>The operation is \<open>Union'\<close> here: \<open>Union\<close> is the union of a set of sets.\<close>

fun Union_nodes :: "(Node \<Rightarrow> Node \<Rightarrow> Node) \<Rightarrow> nodeIndex \<Rightarrow> Node list \<Rightarrow> Node list \<Rightarrow> Node list" where
  "Union_nodes upd nodeindex [] ns = ns"
| "Union_nodes upd nodeindex (n # rest) ns =
     (case map_of nodeindex (Id' n) of
        Some i \<Rightarrow> Union_nodes upd nodeindex rest (ns[i := upd (ns ! i) n])
      | None \<Rightarrow> Union_nodes upd nodeindex rest (ns @ [n]))"

definition Union_edge :: "Edge \<Rightarrow> NodeList \<Rightarrow> NodeList" where
  "Union_edge e ret =
     (case GetEdgeByType ret (From e) (Type e) of
        None \<Rightarrow> ret\<lparr>Edges := Edges ret @ [Edge_Copy e]\<rparr>
      | Some i \<Rightarrow>
          let existingEdge = Edges ret ! i;
              existingEdge' = fold (\<lambda>to ex. if \<not> PointsTo ex to then ex\<lparr>To := To ex @ [to]\<rparr> else ex)
                                (To e) existingEdge
          in ret\<lparr>Edges := (Edges ret)[i := existingEdge']\<rparr>)"

definition Union' ::
  "(Node \<Rightarrow> Node \<Rightarrow> Node) \<Rightarrow> (Edge_Type \<Rightarrow> string) \<Rightarrow> nat list \<Rightarrow> (string \<Rightarrow> nat list) \<Rightarrow>
   NodeList \<Rightarrow> NodeList \<Rightarrow> NodeList" where
  "Union' upd tstr rk rt nl nl2 =
     (let ret0 = \<lparr>Nodes = fold (\<lambda>n ns. ns @ [Node_Copy n]) (Nodes nl) [],
                  Edges = copyEdgeList (Edges nl),
                  RootElements = RootElements nl\<rparr>;
          nodeindex = indexNodes ret0;
          ret1 = ret0\<lparr>Nodes := Union_nodes upd nodeindex (Nodes nl2) (Nodes ret0)\<rparr>;
          ret2 = fold Union_edge (Edges nl2) ret1;
          ret3 = cleanEdges tstr rk rt ret2;
          rootNodes = indexRootElements ret3
      in ret3\<lparr>RootElements :=
                fold (\<lambda>rootEl rs. if \<not> gm_has rootEl rootNodes then rs @ [rootEl] else rs)
                  (RootElements nl2) (RootElements ret3)\<rparr>)"

subsection \<open>Equal\<close>

text \<open>
  \<open>Edge.flatString\<close> and \<open>Node.flatString\<close> are methods on pointers, outside src:
  \<open>eflat\<close> and \<open>nflat\<close> give the string and the object as the call leaves it.
  \<open>sort.Strings\<close> sorts a slice in place in increasing byte order, which is the
  order of \<open>sort\<close> on strings here; \<open>r1\<close> and \<open>r2\<close> alias the root slices of the
  two lists. \<open>reflect.DeepEqual\<close> on two maps holds when they have the same keys with
  equal values. On slices it also tells a nil slice from an empty one, which lists do
  not: for two lists without root ids, one nil and one empty, Go's Equal returns false
  at the comparison of \<open>r1\<close> and \<open>r2\<close>, where this model goes on.
\<close>

definition gm_DeepEqual :: "(string, string) gomap \<Rightarrow> (string, string) gomap \<Rightarrow> bool" where
  "gm_DeepEqual m1 m2 =
     (length m1 = length m2 \<and> list_all (\<lambda>(k, v). map_of m2 k = Some v) m1)"

definition Equal ::
  "(Edge \<Rightarrow> string \<times> Edge) \<Rightarrow> (Node \<Rightarrow> string \<times> Node) \<Rightarrow> NodeList \<Rightarrow> NodeList option \<Rightarrow>
   bool \<times> NodeList \<times> NodeList option" where
  "Equal eflat nflat nl nl2opt =
     (case nl2opt of
        None \<Rightarrow> (False, nl, None)
      | Some nl2 \<Rightarrow>
          if length (Edges nl) \<noteq> length (Edges nl2) \<or>
             length (Nodes nl) \<noteq> length (Nodes nl2) \<or>
             length (RootElements nl) \<noteq> length (RootElements nl2)
          then (False, nl, Some nl2)
          else
            let r1 = sort (RootElements nl);
                r2 = sort (RootElements nl2);
                nla = nl\<lparr>RootElements := r1\<rparr>;
                nl2a = nl2\<lparr>RootElements := r2\<rparr>
            in if r1 \<noteq> r2 then (False, nla, Some nl2a)
               else
                 let nlEdges = sort (map (\<lambda>e. fst (eflat e)) (Edges nla));
                     nlb = nla\<lparr>Edges := map (\<lambda>e. snd (eflat e)) (Edges nla)\<rparr>;
                     nl2Edges = sort (map (\<lambda>e. fst (eflat e)) (Edges nl2a));
                     nl2b = nl2a\<lparr>Edges := map (\<lambda>e. snd (eflat e)) (Edges nl2a)\<rparr>
                 in if nlEdges \<noteq> nl2Edges then (False, nlb, Some nl2b)
                    else
                      let nlNodes = fold (\<lambda>n m. gm_store (Id' n) (fst (nflat n)) m) (Nodes nlb) [];
                          nlc = nlb\<lparr>Nodes := map (\<lambda>n. snd (nflat n)) (Nodes nlb)\<rparr>;
                          nl2Nodes = fold (\<lambda>n m. gm_store (Id' n) (fst (nflat n)) m) (Nodes nl2b) [];
                          nl2c = nl2b\<lparr>Nodes := map (\<lambda>n. snd (nflat n)) (Nodes nl2b)\<rparr>
                      in (gm_DeepEqual nlNodes nl2Nodes, nlc, Some nl2c))"

subsection \<open>RelateNodeListAtID\<close>

text \<open>The result is the returned error (\<open>None\<close> for nil) and the receiver as the call
  leaves it.\<close>

definition RelateNodeListAtID ::
  "NodeList \<Rightarrow> NodeList \<Rightarrow> string \<Rightarrow> Edge_Type \<Rightarrow> error option \<times> NodeList" where
  "RelateNodeListAtID nl nl2 nodeID edgeType =
     (let nlIndex = indexNodes nl;
          nlEdges = indexEdges nl
      in if \<not> gm_has nodeID nlIndex then (Some (NotFound nodeID), nl)
         else
           let addNodes = (\<lambda>nl1. fold (\<lambda>n acc. if gm_has (Id' n) nlIndex then acc else AddNode acc n)
                                     (Nodes nl2) nl1)
           in if gm_has nodeID nlEdges \<and> gm_has edgeType (gm_get [] nlEdges nodeID)
              then (case gm_get [] (gm_get [] nlEdges nodeID) edgeType of
                      [] \<Rightarrow> (Some IndexOutOfRange, nl)
                    | i # _ \<Rightarrow>
                        (None, addNodes (nl\<lparr>Edges := (Edges nl)
                           [i := (Edges nl ! i)\<lparr>To := To (Edges nl ! i) @ RootElements nl2\<rparr>]\<rparr>)))
              else (None, addNodes (nl\<lparr>Edges := Edges nl @
                      [\<lparr>Type = edgeType, From = nodeID, To = RootElements nl2\<rparr>]\<rparr>)))"

subsection \<open>GetNodesByPurlType, reconnectOrphanNodes\<close>

definition reconnectOrphanNodes :: "NodeList \<Rightarrow> NodeList" where
  "reconnectOrphanNodes nl =
     (let edgeIndex = indexEdges nl;
          rootIndex0 = indexRootElements nl;
          rootIndex = fold (\<lambda>rid index. gm_store rid () index) (RootElements nl) rootIndex0
      in fold (\<lambda>n acc. if \<not> gm_has (Id' n) edgeIndex
                        then (if \<not> gm_has (Id' n) rootIndex
                              then acc\<lparr>RootElements := RootElements acc @ [Id' n]\<rparr> else acc)
                        else acc)
           (Nodes nl) nl)"

definition GetNodesByPurlType ::
  "(Node \<Rightarrow> string) \<Rightarrow> (Edge_Type \<Rightarrow> string) \<Rightarrow> nat list \<Rightarrow> (string \<Rightarrow> nat list) \<Rightarrow>
   NodeList option \<Rightarrow> string \<Rightarrow> NodeList" where
  "GetNodesByPurlType purl tstr rk rt nlopt purlType =
     (let ret = \<lparr>Nodes = [], Edges = [], RootElements = []\<rparr> in
      case nlopt of
        None \<Rightarrow> ret
      | Some nl \<Rightarrow>
          let ret1 = fold (\<lambda>n acc.
                       if prefix (''pkg:'' @ purlType @ ''/'') (purl n) \<or>
                          prefix (''pkg:/'' @ purlType @ ''/'') (purl n)
                       then acc\<lparr>Nodes := Nodes acc @ [n]\<rparr> else acc) (Nodes nl) ret;
              index = indexNodes ret1;
              ret2 = fold (\<lambda>e acc. if gm_has (From e) index
                                   then acc\<lparr>Edges := Edges acc @ [Edge_Copy e]\<rparr> else acc)
                       (Edges nl) ret1
          in cleanEdges tstr rk rt (reconnectOrphanNodes ret2))"

subsection \<open>Query helpers\<close>







subsection \<open>The exported operations, called through pointers\<close>















section \<open>Properties\<close>

text \<open>The node set of a list: the ids of its nodes.\<close>

definition node_ids :: "NodeList \<Rightarrow> string set" where
  "node_ids nl = Id' ` set (Nodes nl)"

text \<open>The destinations that sanitation keeps under a key: those of the edges with that
  key and an indexed origin that are themselves indexed.\<close>

definition valid_tos :: "nodeIndex \<Rightarrow> (Edge_Type \<Rightarrow> string) \<Rightarrow> Edge list \<Rightarrow> string \<Rightarrow> string set" where
  "valid_tos idx tstr es k =
     (\<Union>e \<in> {e \<in> set es. gm_has (From e) idx \<and> edgeKey tstr e = k}. {s \<in> set (To e). gm_has s idx})"

text \<open>The invariant of the loop of cleanEdges over (seenCache, newTos).\<close>

definition cs_inv ::
  "nodeIndex \<Rightarrow> (Edge_Type \<Rightarrow> string) \<Rightarrow>
   (string, Edge) gomap \<times> (string, (string, string) gomap) gomap \<Rightarrow> bool" where
  "cs_inv idx tstr st =
     (distinct (map fst (fst st)) \<and>
      (\<forall>(k, e) \<in> set (fst st). edgeKey tstr e = k \<and> To e = [] \<and> gm_has (From e) idx) \<and>
      (\<forall>k. distinct (gm_keys (gm_get [] (snd st) k)) \<and>
           set (gm_keys (gm_get [] (snd st) k)) \<subseteq> {s. gm_has s idx}))"

text \<open>The edge invariants: no dangling origin or destination, at most one edge for each
  (origin, type) pair, no repeated destination; and the edge set of a list, each edge
  as an (origin, type, destination set) triple.\<close>

definition no_dangling :: "NodeList \<Rightarrow> bool" where
  "no_dangling nl =
     (\<forall>e \<in> set (Edges nl). From e \<in> node_ids nl \<and> (\<forall>d \<in> set (To e). d \<in> node_ids nl))"

definition no_dup_pairs :: "NodeList \<Rightarrow> bool" where
  "no_dup_pairs nl = distinct (map (\<lambda>e. (From e, Type e)) (Edges nl))"

definition dedup_tos :: "NodeList \<Rightarrow> bool" where
  "dedup_tos nl = (\<forall>e \<in> set (Edges nl). distinct (To e))"

definition edge_triples :: "NodeList \<Rightarrow> (string \<times> Edge_Type \<times> string set) set" where
  "edge_triples nl = (\<lambda>e. (From e, Type e, set (To e))) ` set (Edges nl)"

text \<open>The three edge invariants together.\<close>

definition sanitized :: "NodeList \<Rightarrow> bool" where
  "sanitized nl = (no_dangling nl \<and> no_dup_pairs nl \<and> dedup_tos nl)"

text \<open>Every slice the edge index holds has an element, so its \<open>[0]\<close> is in range.\<close>

definition index_nonempty :: "edgeIndex \<Rightarrow> bool" where
  "index_nonempty index =
     (\<forall>f t. gm_has t (gm_get [] index f) \<longrightarrow> gm_get [] (gm_get [] index f) t \<noteq> [])"

text \<open>The (origin, type) pairs of a list of edges.\<close>

definition edge_pairs :: "Edge list \<Rightarrow> (string \<times> Edge_Type) set" where
  "edge_pairs es = (\<lambda>e. (From e, Type e)) ` set es"

text \<open>
  cleanEdges keys an edge by the string \<open>From + "+++" + Type.String()\<close>.
  \<open>keys_faithful\<close> says that, among the given edges, two edges with the same key
  have the same origin and type. \<open>String_ok\<close> is what makes every list so: different
  types have different names, and no name contains the character \<open>+\<close>, as with the
  names and decimal numbers that a protobuf enumeration prints.
\<close>

definition keys_faithful :: "(Edge_Type \<Rightarrow> string) \<Rightarrow> Edge list \<Rightarrow> bool" where
  "keys_faithful tstr es =
     (\<forall>x \<in> set es. \<forall>y \<in> set es.
        edgeKey tstr x = edgeKey tstr y \<longrightarrow> From x = From y \<and> Type x = Type y)"

definition String_ok :: "(Edge_Type \<Rightarrow> string) \<Rightarrow> bool" where
  "String_ok tstr = (inj tstr \<and> (\<forall>t. CHR ''+'' \<notin> set (tstr t)))"

text \<open>The first test of Equal: the two lists have as many edges, nodes and root ids.\<close>

definition counts_agree :: "NodeList \<Rightarrow> NodeList \<Rightarrow> bool" where
  "counts_agree nl nl2 =
     (length (Edges nl) = length (Edges nl2) \<and> length (Nodes nl) = length (Nodes nl2) \<and>
      length (RootElements nl) = length (RootElements nl2))"

text \<open>No edge of the list with the origin and type of \<open>e\<close> has a destination among
  the nodes.\<close>

definition no_destination_left :: "NodeList \<Rightarrow> Edge \<Rightarrow> bool" where
  "no_destination_left nl e =
     (\<forall>e2 \<in> set (Edges nl). From e2 = From e \<and> Type e2 = Type e \<longrightarrow>
        (\<forall>d \<in> set (To e2). d \<notin> node_ids nl))"

text \<open>The destinations that the edges of one (origin, type) pair have between them.\<close>

definition pair_dests :: "Edge list \<Rightarrow> string \<times> Edge_Type \<Rightarrow> string set" where
  "pair_dests es p = (\<Union>e \<in> {e \<in> set es. (From e, Type e) = p}. set (To e))"

text \<open>An overlay of a node with a node of the same id leaves the id as it is.\<close>

definition keeps_id :: "(Node \<Rightarrow> Node \<Rightarrow> Node) \<Rightarrow> bool" where
  "keeps_id upd = (\<forall>n m. Id' m = Id' n \<longrightarrow> Id' (upd n m) = Id' n)"

subsection \<open>Concrete inputs\<close>

text \<open>
  The inputs of the worked examples. \<open>Edge_Type_String\<close> stands for the generated
  \<open>Edge_Type.String()\<close> there: the names of the enumeration are outside src, and any
  naming that gives different types different names without the character \<open>+\<close> gives
  the same results; type 1 plays the part of the spec's \<open>dependsOn\<close>.
  \<open>insertion_order\<close> gives every inner map of newTos the empty seed, which visits a
  map in the order its keys were inserted.
\<close>

definition bare_node :: "string \<Rightarrow> Node" where
  "bare_node i = \<lparr>Id' = i, Name = [], Identifiers = []\<rparr>"

definition Edge_Type_String :: "Edge_Type \<Rightarrow> string" where
  "Edge_Type_String t = (if t < 0 then ''-'' else []) @ replicate (nat \<bar>t\<bar>) CHR ''I''"

definition insertion_order :: "string \<Rightarrow> nat list" where
  "insertion_order f = []"

text \<open>The two lists of the spec's scenario: A has nodes a (root) and b and the edge from
  a to b; B has nodes b (root) and c and the edge from b to c.\<close>

definition scenario_A :: NodeList where
  "scenario_A = \<lparr>Nodes = [bare_node ''a'', bare_node ''b''],
                  Edges = [\<lparr>Type = 1, From = ''a'', To = [''b'']\<rparr>],
                  RootElements = [''a'']\<rparr>"

definition scenario_B :: NodeList where
  "scenario_B = \<lparr>Nodes = [bare_node ''b'', bare_node ''c''],
                  Edges = [\<lparr>Type = 1, From = ''b'', To = [''c'']\<rparr>],
                  RootElements = [''b'']\<rparr>"

text \<open>A node whose package url has the extra slash that the comment in
  GetNodesByPurlType describes.\<close>

definition quirk_node :: Node where
  "quirk_node = \<lparr>Id' = ''n'', Name = [], Identifiers = [(''purl'', ''pkg:/deb/debian/foo'')]\<rparr>"

text \<open>Two lists over the same nodes a and b, where only the second has an edge; a list
  with two edges of one (origin, type) pair, the first to an id that is no node; and
  scenario A after node b is gone.\<close>

definition overlap_A :: NodeList where
  "overlap_A = \<lparr>Nodes = [bare_node ''a'', bare_node ''b''], Edges = [], RootElements = []\<rparr>"

definition overlap_B :: NodeList where
  "overlap_B = \<lparr>Nodes = [bare_node ''a'', bare_node ''b''],
                 Edges = [\<lparr>Type = 1, From = ''a'', To = [''b'']\<rparr>], RootElements = []\<rparr>"

definition collapsing :: NodeList where
  "collapsing = \<lparr>Nodes = [bare_node ''a'', bare_node ''b''],
                  Edges = [\<lparr>Type = 1, From = ''a'', To = [''x'']\<rparr>,
                           \<lparr>Type = 1, From = ''a'', To = [''b'']\<rparr>],
                  RootElements = []\<rparr>"

definition stranded :: NodeList where
  "stranded = \<lparr>Nodes = [bare_node ''a''],
                Edges = [\<lparr>Type = 1, From = ''a'', To = [''b'']\<rparr>], RootElements = []\<rparr>"

text \<open>
  Modelled from the spec: \<open>Edge.flatString\<close> and \<open>Node.flatString\<close> (outside src),
  for the concrete inputs: an edge flattened as type, origin and sorted destinations, a
  node as its fields; both leave their object as it is.
\<close>

definition Edge_flatString :: "(Edge_Type \<Rightarrow> string) \<Rightarrow> Edge \<Rightarrow> string \<times> Edge" where
  "Edge_flatString tstr e = (tstr (Type e) @ From e @ concat (sort (To e)), e)"

definition Node_flatString :: "Node \<Rightarrow> string \<times> Node" where
  "Node_flatString n = (Id' n @ Name n @ concat (map (\<lambda>(t, v). t @ v) (Identifiers n)), n)"

text \<open>Lists for Equal: root ids out of order, no root ids, and two edges out of the
  order of their flattened strings.\<close>

definition unsorted_roots :: NodeList where
  "unsorted_roots = \<lparr>Nodes = [], Edges = [], RootElements = [''b'', ''a'']\<rparr>"

definition no_roots :: NodeList where
  "no_roots = \<lparr>Nodes = [], Edges = [], RootElements = []\<rparr>"

definition unsorted_edges :: NodeList where
  "unsorted_edges = \<lparr>Nodes = [],
                      Edges = [\<lparr>Type = 1, From = ''b'', To = []\<rparr>, \<lparr>Type = 1, From = ''a'', To = []\<rparr>],
                      RootElements = [''b'', ''a'']\<rparr>"

text \<open>Two lists over the nodes a and b: the first has the edge from a to b, the second
  an edge from a to a, of the same type, and an edge from b to a.\<close>

definition widen_A :: NodeList where
  "widen_A = \<lparr>Nodes = [bare_node ''a'', bare_node ''b''],
               Edges = [\<lparr>Type = 1, From = ''a'', To = [''b'']\<rparr>], RootElements = []\<rparr>"

definition widen_B :: NodeList where
  "widen_B = \<lparr>Nodes = [bare_node ''a'', bare_node ''b''],
               Edges = [\<lparr>Type = 1, From = ''a'', To = [''a'']\<rparr>,
                        \<lparr>Type = 1, From = ''b'', To = [''a'']\<rparr>],
               RootElements = []\<rparr>"

section \<open>Go maps and range order\<close>

text \<open>A store keeps the keys distinct and in place; \<open>range_order\<close> permutes.\<close>

lemma map_of_gm_store: "map_of (gm_store k v m) = (map_of m)(k \<mapsto> v)"
  by (induction m) (auto simp: fun_eq_iff)

lemma map_fst_gm_store:
  "map fst (gm_store k v m) = (if k \<in> fst ` set m then map fst m else map fst m @ [k])"
  by (induction k v m rule: gm_store.induct) (auto simp: rev_image_eqI)

lemma keys_gm_store: "fst ` set (gm_store k v m) = insert k (fst ` set m)"
proof -
  have "set (map fst (gm_store k v m)) = insert k (set (map fst m))"
    unfolding map_fst_gm_store by auto
  then show ?thesis by simp
qed

lemma distinct_gm_store: "distinct (map fst m) \<Longrightarrow> distinct (map fst (gm_store k v m))"
  unfolding map_fst_gm_store by auto

lemma gm_has_iff: "gm_has k m \<longleftrightarrow> k \<in> fst ` set m"
  by (simp add: gm_has_def map_of_eq_None_iff)

lemma gm_has_store: "gm_has k' (gm_store k v m) \<longleftrightarrow> k' = k \<or> gm_has k' m"
  by (auto simp: gm_has_iff keys_gm_store)

lemma gm_get_store: "gm_get z (gm_store k v m) k' = (if k' = k then v else gm_get z m k')"
  by (simp add: gm_get_def map_of_gm_store)

lemma gm_get_mem: "distinct (map fst m) \<Longrightarrow> (k, v) \<in> set m \<Longrightarrow> gm_get z m k = v"
  by (simp add: gm_get_def)

lemma gm_store_mem:
  assumes "distinct (map fst m)"
  shows "(k', v') \<in> set (gm_store k v m) \<longleftrightarrow> (k' = k \<and> v' = v) \<or> (k' \<noteq> k \<and> (k', v') \<in> set m)"
proof -
  have d: "distinct (map fst (gm_store k v m))" using assms by (rule distinct_gm_store)
  have "(k', v') \<in> set (gm_store k v m) \<longleftrightarrow> map_of (gm_store k v m) k' = Some v'"
    using d by simp
  also have "\<dots> \<longleftrightarrow> (k' = k \<and> v' = v) \<or> (k' \<noteq> k \<and> map_of m k' = Some v')"
    by (auto simp: map_of_gm_store)
  also have "\<dots> \<longleftrightarrow> (k' = k \<and> v' = v) \<or> (k' \<noteq> k \<and> (k', v') \<in> set m)"
    using assms by simp
  finally show ?thesis .
qed

lemma range_order_step:
  "xs \<noteq> [] \<Longrightarrow> range_order (s # seed) xs =
     xs ! (s mod length xs) # range_order seed (take (s mod length xs) xs @ drop (Suc (s mod length xs)) xs)"
  by (cases xs) (simp_all add: Let_def)

lemma range_order_Nil: "range_order seed [] = []"
  by (cases seed) simp_all

lemma range_order_no_seed: "range_order [] xs = xs"
  by (cases xs) simp_all

lemma set_range_order: "set (range_order seed xs) = set xs"
proof (induction seed arbitrary: xs)
  case Nil
  then show ?case by (simp add: range_order_no_seed)
next
  case (Cons s seed)
  show ?case
  proof (cases "xs = []")
    case True
    then show ?thesis by (simp add: range_order_Nil)
  next
    case False
    define i where "i = s mod length xs"
    have i: "i < length xs" using False by (simp add: i_def)
    have "xs = take i xs @ xs ! i # drop (Suc i) xs" using i by (rule id_take_nth_drop)
    then have "set xs = insert (xs ! i) (set (take i xs @ drop (Suc i) xs))"
      by (metis Un_insert_right set_append list.simps(15))
    then show ?thesis using Cons.IH[of "take i xs @ drop (Suc i) xs"]
      by (simp add: range_order_step[OF False] i_def)
  qed
qed

lemma distinct_range_order: "distinct xs \<Longrightarrow> distinct (range_order seed xs)"
proof (induction seed arbitrary: xs)
  case Nil
  then show ?case by (simp add: range_order_no_seed)
next
  case (Cons s seed)
  show ?case
  proof (cases "xs = []")
    case True
    then show ?thesis by (simp add: range_order_Nil)
  next
    case False
    define i where "i = s mod length xs"
    have i: "i < length xs" using False by (simp add: i_def)
    have split: "xs = take i xs @ xs ! i # drop (Suc i) xs" using i by (rule id_take_nth_drop)
    have "distinct (take i xs @ xs ! i # drop (Suc i) xs)" using Cons.prems split by simp
    then have d: "distinct (take i xs @ drop (Suc i) xs)"
      and n: "xs ! i \<notin> set (take i xs @ drop (Suc i) xs)" by auto
    show ?thesis using d n Cons.IH[OF d]
      by (simp add: range_order_step[OF False] i_def[symmetric] set_range_order)
  qed
qed

lemma range_order_map: "map f (range_order seed xs) = range_order seed (map f xs)"
proof (induction seed arbitrary: xs)
  case Nil
  then show ?case by (simp add: range_order_no_seed)
next
  case (Cons s seed)
  show ?case
  proof (cases "xs = []")
    case True
    then show ?thesis by (simp add: range_order_Nil)
  next
    case False
    define i where "i = s mod length xs"
    have i: "i < length xs" using False by (simp add: i_def)
    have ne: "map f xs \<noteq> []" using False by simp
    show ?thesis using i Cons.IH[of "take i xs @ drop (Suc i) xs"]
      by (simp add: range_order_step[OF False] range_order_step[OF ne] i_def[symmetric]
          take_map drop_map)
  qed
qed

lemma range_order_single: "range_order seed [x] = [x]"
  by (cases seed) (simp_all add: Let_def range_order_Nil)

lemma range_order_two: "range_order seed [x, y] = [x, y] \<or> range_order seed [x, y] = [y, x]"
proof (cases seed)
  case Nil
  then show ?thesis by simp
next
  case (Cons s seed')
  define i where "i = s mod length [x, y]"
  have "i < length [x, y]" unfolding i_def by (rule mod_less_divisor) simp
  then have "i = 0 \<or> i = 1" by (auto simp: less_Suc_eq)
  moreover have "range_order (s # seed') [x, y] =
      [x, y] ! i # range_order seed' (take i [x, y] @ drop (Suc i) [x, y])"
    unfolding i_def by (rule range_order_step) simp
  ultimately show ?thesis using Cons by (auto simp: range_order_single)
qed

lemma length_range_order: "length (range_order seed xs) = length xs"
proof (induction seed arbitrary: xs)
  case Nil
  then show ?case by (simp add: range_order_no_seed)
next
  case (Cons s seed)
  show ?case
  proof (cases "xs = []")
    case True
    then show ?thesis by (simp add: range_order_Nil)
  next
    case False
    then have "s mod length xs < length xs" by simp
    then show ?thesis using Cons.IH[of "take (s mod length xs) xs @ drop (Suc (s mod length xs)) xs"]
      by (simp add: range_order_step[OF False])
  qed
qed

text \<open>Every order of the entries of a map is the order of some seed.\<close>

lemma range_order_reaches:
  "distinct xs \<Longrightarrow> distinct ys \<Longrightarrow> set ys = set xs \<Longrightarrow> \<exists>seed. range_order seed xs = ys"
proof (induction ys arbitrary: xs)
  case Nil
  then show ?case by (simp add: range_order_Nil)
next
  case (Cons y ys)
  then have "y \<in> set xs" by auto
  then obtain i where i: "i < length xs" "xs ! i = y" by (auto simp: in_set_conv_nth)
  define xs' where "xs' = take i xs @ drop (Suc i) xs"
  have split: "xs = take i xs @ y # drop (Suc i) xs" using i id_take_nth_drop by blast
  have d: "distinct (take i xs @ y # drop (Suc i) xs)" using Cons.prems(1) split by simp
  then have dx: "distinct xs'" and ny: "y \<notin> set xs'" by (auto simp: xs'_def)
  have "set xs = insert y (set xs')"
    using arg_cong[OF split, of set] by (simp add: xs'_def)
  then have "set ys = set xs'" using Cons.prems(2,3) ny by auto
  with Cons.IH[OF dx] Cons.prems(2) obtain seed where seed: "range_order seed xs' = ys" by auto
  have ne: "xs \<noteq> []" using i by auto
  have "i mod length xs = i" using i by simp
  then have "range_order (i # seed) xs = y # ys"
    using range_order_step[OF ne, of i seed] i seed by (simp add: xs'_def)
  then show ?case by blast
qed

lemma keys_indexNodes_from:
  "fst ` set (indexNodes_from i ns ret) = fst ` set ret \<union> Id' ` set ns"
  by (induction i ns ret rule: indexNodes_from.induct) (auto simp: keys_gm_store)

lemma gm_has_indexNodes: "gm_has x (indexNodes nl) \<longleftrightarrow> x \<in> Id' ` set (Nodes nl)"
  by (simp add: gm_has_iff indexNodes_def keys_indexNodes_from)

section \<open>The loop of cleanEdges\<close>

lemma set_gm_store_subset: "set (gm_store k v m) \<subseteq> insert (k, v) (set m)"
  by (induction k v m rule: gm_store.induct) auto

lemma gm_keys_store: "set (gm_keys (gm_store k v m)) = insert k (set (gm_keys m))"
  using keys_gm_store[of k v m] by (simp add: gm_keys_def)

lemma tos_fold_keys:
  "set (gm_keys (fold (\<lambda>s m. if \<not> gm_has s idx then m else gm_store s s m) ss m)) =
   set (gm_keys m) \<union> {s \<in> set ss. gm_has s idx}"
  by (induction ss arbitrary: m) (auto simp: gm_keys_store)

lemma tos_fold_distinct:
  "distinct (gm_keys m) \<Longrightarrow>
   distinct (gm_keys (fold (\<lambda>s m. if \<not> gm_has s idx then m else gm_store s s m) ss m))"
  by (induction ss arbitrary: m) (auto simp: distinct_gm_store gm_keys_def)

lemma gm_get_store_default:
  "gm_get z (if \<not> gm_has k m then gm_store k z m else m) k' = gm_get z m k'"
  by (auto simp: gm_has_def gm_get_def map_of_gm_store)

lemma cleanEdges_step_skip:
  "\<not> gm_has (From e) idx \<Longrightarrow> cleanEdges_step idx tstr e st = st"
  by (cases st) (simp add: cleanEdges_step_def)

lemma cleanEdges_step_fst:
  "gm_has (From e) idx \<Longrightarrow>
   fst (cleanEdges_step idx tstr e st) =
     (if \<not> gm_has (edgeKey tstr e) (fst st)
      then gm_store (edgeKey tstr e) \<lparr>Type = Type e, From = From e, To = []\<rparr> (fst st)
      else fst st)"
  by (cases st) (simp add: cleanEdges_step_def Let_def)

lemma cleanEdges_step_get:
  "gm_has (From e) idx \<Longrightarrow>
   gm_get [] (snd (cleanEdges_step idx tstr e st)) k =
     (if k = edgeKey tstr e
      then fold (\<lambda>s m. if \<not> gm_has s idx then m else gm_store s s m) (To e) (gm_get [] (snd st) k)
      else gm_get [] (snd st) k)"
  by (cases st) (simp add: cleanEdges_step_def Let_def gm_get_store gm_get_store_default)

lemma cs_inv_step:
  assumes "cs_inv idx tstr st"
  shows "cs_inv idx tstr (cleanEdges_step idx tstr e st)"
proof (cases "gm_has (From e) idx")
  case False
  then show ?thesis using assms by (simp add: cleanEdges_step_skip)
next
  case True
  have d: "distinct (map fst (fst st))" using assms by (simp add: cs_inv_def)
  have seen: "\<forall>(k, e) \<in> set (fst st). edgeKey tstr e = k \<and> To e = [] \<and> gm_has (From e) idx"
    using assms by (simp add: cs_inv_def)
  have tos: "\<And>k. distinct (gm_keys (gm_get [] (snd st) k)) \<and>
           set (gm_keys (gm_get [] (snd st) k)) \<subseteq> {s. gm_has s idx}"
    using assms by (simp add: cs_inv_def)
  have 1: "distinct (map fst (fst (cleanEdges_step idx tstr e st)))"
    using d by (simp add: cleanEdges_step_fst[OF True] distinct_gm_store)
  have 2: "\<forall>(k, e') \<in> set (fst (cleanEdges_step idx tstr e st)).
             edgeKey tstr e' = k \<and> To e' = [] \<and> gm_has (From e') idx"
    using seen True set_gm_store_subset[of "edgeKey tstr e" "\<lparr>Type = Type e, From = From e, To = []\<rparr>" "fst st"]
    by (auto simp: cleanEdges_step_fst[OF True] edgeKey_def split: if_splits)
  have 3: "\<And>k. distinct (gm_keys (gm_get [] (snd (cleanEdges_step idx tstr e st)) k)) \<and>
           set (gm_keys (gm_get [] (snd (cleanEdges_step idx tstr e st)) k)) \<subseteq> {s. gm_has s idx}"
    using tos by (auto simp: cleanEdges_step_get[OF True] tos_fold_distinct tos_fold_keys)
  show ?thesis unfolding cs_inv_def using 1 2 3 by blast
qed

lemma cs_inv_fold:
  "cs_inv idx tstr st \<Longrightarrow> cs_inv idx tstr (fold (cleanEdges_step idx tstr) es st)"
  by (induction es arbitrary: st) (simp_all add: cs_inv_step)

lemma cs_inv_init: "cs_inv idx tstr ([], [])"
  by (simp add: cs_inv_def gm_get_def gm_keys_def)

lemma cs_keys_fold:
  "fst ` set (fst (fold (cleanEdges_step idx tstr) es st)) =
   fst ` set (fst st) \<union> edgeKey tstr ` {e \<in> set es. gm_has (From e) idx}"
proof (induction es arbitrary: st)
  case Nil
  then show ?case by simp
next
  case (Cons e es)
  show ?case
  proof (cases "gm_has (From e) idx")
    case False
    then show ?thesis using Cons.IH[of st] by (auto simp: cleanEdges_step_skip)
  next
    case True
    have "fst ` set (fst (cleanEdges_step idx tstr e st)) = insert (edgeKey tstr e) (fst ` set (fst st))"
      by (auto simp: cleanEdges_step_fst[OF True] keys_gm_store gm_has_iff)
    then show ?thesis using True Cons.IH[of "cleanEdges_step idx tstr e st"] by auto
  qed
qed

lemma cs_tos_fold:
  "set (gm_keys (gm_get [] (snd (fold (cleanEdges_step idx tstr) es st)) k)) =
   set (gm_keys (gm_get [] (snd st) k)) \<union> valid_tos idx tstr es k"
proof (induction es arbitrary: st)
  case Nil
  then show ?case by (simp add: valid_tos_def)
next
  case (Cons e es)
  show ?case
  proof (cases "gm_has (From e) idx")
    case False
    have "valid_tos idx tstr (e # es) k = valid_tos idx tstr es k"
      using False by (auto simp: valid_tos_def)
    then show ?thesis using False Cons.IH[of st] by (simp add: cleanEdges_step_skip)
  next
    case True
    have v: "valid_tos idx tstr (e # es) k =
          (if edgeKey tstr e = k then {s \<in> set (To e). gm_has s idx} else {}) \<union> valid_tos idx tstr es k"
      using True by (auto simp: valid_tos_def)
    have "set (gm_keys (gm_get [] (snd (cleanEdges_step idx tstr e st)) k)) =
          set (gm_keys (gm_get [] (snd st) k)) \<union> (if edgeKey tstr e = k then {s \<in> set (To e). gm_has s idx} else {})"
      by (auto simp: cleanEdges_step_get[OF True] tos_fold_keys)
    then show ?thesis using Cons.IH[of "cleanEdges_step idx tstr e st"] v by auto
  qed
qed

lemma cs_seen_fold:
  "(k, e') \<in> set (fst (fold (cleanEdges_step idx tstr) es st)) \<Longrightarrow>
   (k, e') \<in> set (fst st) \<or>
   (\<exists>e \<in> set es. gm_has (From e) idx \<and> edgeKey tstr e = k \<and> From e' = From e \<and> Type e' = Type e)"
proof (induction es arbitrary: st)
  case Nil
  then show ?case by simp
next
  case (Cons e es)
  from Cons.prems have "(k, e') \<in> set (fst (fold (cleanEdges_step idx tstr) es (cleanEdges_step idx tstr e st)))"
    by simp
  from Cons.IH[OF this] show ?case
  proof
    assume m: "(k, e') \<in> set (fst (cleanEdges_step idx tstr e st))"
    show ?thesis
    proof (cases "gm_has (From e) idx")
      case False
      then show ?thesis using m by (simp add: cleanEdges_step_skip)
    next
      case True
      then show ?thesis using m
          set_gm_store_subset[of "edgeKey tstr e" "\<lparr>Type = Type e, From = From e, To = []\<rparr>" "fst st"]
        by (auto simp: cleanEdges_step_fst[OF True] split: if_splits)
    qed
  next
    assume "\<exists>e \<in> set es. gm_has (From e) idx \<and> edgeKey tstr e = k \<and> From e' = From e \<and> Type e' = Type e"
    then show ?thesis by auto
  qed
qed

section \<open>What cleanEdges returns\<close>

lemma cleanEdges_Nodes [simp]: "Nodes (cleanEdges tstr rk rt nl) = Nodes nl"
  by (simp add: cleanEdges_def Let_def)

lemma cleanEdges_RootElements [simp]: "RootElements (cleanEdges tstr rk rt nl) = RootElements nl"
  by (simp add: cleanEdges_def Let_def)

lemma cleanEdges_Edges:
  "Edges (cleanEdges tstr rk rt nl) =
     map (\<lambda>(f, e). e\<lparr>To := To e @ range_order (rt f)
            (gm_keys (gm_get [] (snd (fold (cleanEdges_step (indexNodes nl) tstr) (Edges nl) ([], []))) f))\<rparr>)
       (range_order rk (fst (fold (cleanEdges_step (indexNodes nl) tstr) (Edges nl) ([], []))))"
  by (simp add: cleanEdges_def Let_def)

lemma edgeKey_To [simp]: "edgeKey tstr (e\<lparr>To := ts\<rparr>) = edgeKey tstr e"
  by (simp add: edgeKey_def)

lemma edgeKey_cong: "From e = From e' \<Longrightarrow> Type e = Type e' \<Longrightarrow> edgeKey tstr e = edgeKey tstr e'"
  by (simp add: edgeKey_def)

lemma valid_tos_subset: "valid_tos idx tstr es k \<subseteq> {s. gm_has s idx}"
  by (auto simp: valid_tos_def)

lemma cleanEdges_sound:
  assumes "e' \<in> set (Edges (cleanEdges tstr rk rt nl))"
  shows "\<exists>e \<in> set (Edges nl). gm_has (From e) (indexNodes nl) \<and> From e' = From e \<and> Type e' = Type e \<and>
           set (To e') = valid_tos (indexNodes nl) tstr (Edges nl) (edgeKey tstr e) \<and> distinct (To e')"
proof -
  define idx where "idx = indexNodes nl"
  define st where "st = fold (cleanEdges_step idx tstr) (Edges nl) ([], [])"
  have inv: "cs_inv idx tstr st" unfolding st_def by (rule cs_inv_fold[OF cs_inv_init])
  from assms obtain f e0 where fe: "(f, e0) \<in> set (fst st)"
    and e': "e' = e0\<lparr>To := To e0 @ range_order (rt f) (gm_keys (gm_get [] (snd st) f))\<rparr>"
    unfolding cleanEdges_Edges idx_def[symmetric] st_def[symmetric]
    by (auto simp: set_range_order)
  have e0: "edgeKey tstr e0 = f" "To e0 = []" using inv fe by (auto simp: cs_inv_def)
  from cs_seen_fold[OF fe[unfolded st_def]] obtain e where e: "e \<in> set (Edges nl)"
    "gm_has (From e) idx" "edgeKey tstr e = f" "From e0 = From e" "Type e0 = Type e"
    by auto
  have tos: "set (gm_keys (gm_get [] (snd st) f)) = valid_tos idx tstr (Edges nl) f"
    unfolding st_def cs_tos_fold by (simp add: gm_get_def gm_keys_def)
  have d: "distinct (gm_keys (gm_get [] (snd st) f))" using inv by (simp add: cs_inv_def)
  have "set (To e') = valid_tos idx tstr (Edges nl) (edgeKey tstr e)"
    using e' e0 e tos by (simp add: set_range_order)
  moreover have "distinct (To e')" using e' e0 d by (simp add: distinct_range_order)
  moreover have "From e' = From e" "Type e' = Type e" using e' e by simp_all
  ultimately show ?thesis using e unfolding idx_def by blast
qed

lemma cleanEdges_complete:
  assumes "e \<in> set (Edges nl)" and "gm_has (From e) (indexNodes nl)"
  shows "\<exists>e' \<in> set (Edges (cleanEdges tstr rk rt nl)). edgeKey tstr e' = edgeKey tstr e \<and>
           set (To e') = valid_tos (indexNodes nl) tstr (Edges nl) (edgeKey tstr e)"
proof -
  define idx where "idx = indexNodes nl"
  define st where "st = fold (cleanEdges_step idx tstr) (Edges nl) ([], [])"
  define f where "f = edgeKey tstr e"
  have inv: "cs_inv idx tstr st" unfolding st_def by (rule cs_inv_fold[OF cs_inv_init])
  have "f \<in> fst ` set (fst st)" unfolding st_def cs_keys_fold f_def using assms idx_def by auto
  then obtain e0 where fe: "(f, e0) \<in> set (fst st)" by auto
  have e0: "edgeKey tstr e0 = f" "To e0 = []" using inv fe by (auto simp: cs_inv_def)
  define e' where "e' = e0\<lparr>To := To e0 @ range_order (rt f) (gm_keys (gm_get [] (snd st) f))\<rparr>"
  have tos: "set (gm_keys (gm_get [] (snd st) f)) = valid_tos idx tstr (Edges nl) f"
    unfolding st_def cs_tos_fold by (simp add: gm_get_def gm_keys_def)
  have "(f, e0) \<in> set (range_order rk (fst st))" using fe by (simp add: set_range_order)
  then have "e' \<in> set (Edges (cleanEdges tstr rk rt nl))"
    unfolding cleanEdges_Edges idx_def[symmetric] st_def[symmetric] e'_def
    by (force simp: image_iff)
  moreover have "edgeKey tstr e' = f" using e0 by (simp add: e'_def)
  moreover have "set (To e') = valid_tos idx tstr (Edges nl) f"
    using e0 tos by (simp add: e'_def set_range_order)
  ultimately show ?thesis unfolding f_def idx_def by blast
qed

lemma cleanEdges_distinct_keys:
  "distinct (map (edgeKey tstr) (Edges (cleanEdges tstr rk rt nl)))"
proof -
  define idx where "idx = indexNodes nl"
  define st where "st = fold (cleanEdges_step idx tstr) (Edges nl) ([], [])"
  define g :: "string \<times> Edge \<Rightarrow> Edge" where "g = (\<lambda>(f, e). e\<lparr>To := To e @ range_order (rt f) (gm_keys (gm_get [] (snd st) f))\<rparr>)"
  have inv: "cs_inv idx tstr st" unfolding st_def by (rule cs_inv_fold[OF cs_inv_init])
  have "\<And>p. p \<in> set (range_order rk (fst st)) \<Longrightarrow> edgeKey tstr (g p) = fst p"
    using inv by (auto simp: set_range_order cs_inv_def g_def)
  then have "map (edgeKey tstr) (map g (range_order rk (fst st))) = map fst (range_order rk (fst st))"
    by simp
  also have "\<dots> = range_order rk (map fst (fst st))" by (rule range_order_map)
  finally have "map (edgeKey tstr) (Edges (cleanEdges tstr rk rt nl)) = range_order rk (map fst (fst st))"
    unfolding cleanEdges_Edges idx_def[symmetric] st_def[symmetric] g_def .
  moreover have "distinct (map fst (fst st))" using inv by (simp add: cs_inv_def)
  ultimately show ?thesis by (simp add: distinct_range_order)
qed

lemma distinct_map_fun: "distinct (map (\<lambda>x. g (f x)) xs) \<Longrightarrow> distinct (map f xs)"
  by (induction xs) auto

lemma cleanEdges_no_dangling: "no_dangling (cleanEdges tstr rk rt nl)"
  unfolding no_dangling_def
proof (intro ballI conjI)
  fix e' assume "e' \<in> set (Edges (cleanEdges tstr rk rt nl))"
  from cleanEdges_sound[OF this] obtain e where e: "gm_has (From e) (indexNodes nl)" "From e' = From e"
    "set (To e') = valid_tos (indexNodes nl) tstr (Edges nl) (edgeKey tstr e)" by blast
  show "From e' \<in> node_ids (cleanEdges tstr rk rt nl)"
    using e by (simp add: node_ids_def gm_has_indexNodes)
  fix d assume "d \<in> set (To e')"
  then have "gm_has d (indexNodes nl)" using e(3) valid_tos_subset by blast
  then show "d \<in> node_ids (cleanEdges tstr rk rt nl)"
    by (simp add: node_ids_def gm_has_indexNodes)
qed

lemma cleanEdges_no_dup_pairs: "no_dup_pairs (cleanEdges tstr rk rt nl)"
proof -
  define h :: "string \<times> Edge_Type \<Rightarrow> string" where "h = (\<lambda>(f, t). f @ ''+++'' @ tstr t)"
  have "edgeKey tstr = (\<lambda>e. h (From e, Type e))"
    by (simp add: fun_eq_iff edgeKey_def h_def)
  then have "distinct (map (\<lambda>e. h (From e, Type e)) (Edges (cleanEdges tstr rk rt nl)))"
    using cleanEdges_distinct_keys[of tstr rk rt nl] by simp
  then show ?thesis unfolding no_dup_pairs_def by (rule distinct_map_fun)
qed

lemma cleanEdges_dedup_tos: "dedup_tos (cleanEdges tstr rk rt nl)"
  unfolding dedup_tos_def using cleanEdges_sound by blast

lemma indexNodes_cong: "Nodes nl' = Nodes nl \<Longrightarrow> indexNodes nl' = indexNodes nl"
  by (simp add: indexNodes_def)

lemma valid_tos_unique:
  assumes d: "distinct (map (edgeKey tstr) es)" and e: "e \<in> set es"
    and v: "gm_has (From e) idx" and t: "\<forall>s \<in> set (To e). gm_has s idx"
  shows "valid_tos idx tstr es (edgeKey tstr e) = set (To e)"
proof -
  have inj: "inj_on (edgeKey tstr) (set es)" using d by (simp add: distinct_map)
  have "{e2 \<in> set es. gm_has (From e2) idx \<and> edgeKey tstr e2 = edgeKey tstr e} = {e}"
    using inj e v by (auto dest: inj_onD)
  then show ?thesis using t by (auto simp: valid_tos_def)
qed

lemma cleanEdges_fixpoint_triples:
  assumes d: "distinct (map (edgeKey tstr) (Edges nl))"
    and v: "\<forall>e \<in> set (Edges nl). gm_has (From e) (indexNodes nl) \<and> (\<forall>s \<in> set (To e). gm_has s (indexNodes nl))"
  shows "edge_triples (cleanEdges tstr rk rt nl) = edge_triples nl"
proof (intro set_eqI iffI)
  fix x assume "x \<in> edge_triples (cleanEdges tstr rk rt nl)"
  then obtain e' where e': "e' \<in> set (Edges (cleanEdges tstr rk rt nl))"
    and x: "x = (From e', Type e', set (To e'))" by (auto simp: edge_triples_def)
  from cleanEdges_sound[OF e'] obtain e where e: "e \<in> set (Edges nl)" "From e' = From e" "Type e' = Type e"
    "set (To e') = valid_tos (indexNodes nl) tstr (Edges nl) (edgeKey tstr e)" by blast
  have "valid_tos (indexNodes nl) tstr (Edges nl) (edgeKey tstr e) = set (To e)"
    using valid_tos_unique[OF d e(1)] v e(1) by blast
  then show "x \<in> edge_triples nl" using x e by (auto simp: edge_triples_def)
next
  fix x assume "x \<in> edge_triples nl"
  then obtain e where e: "e \<in> set (Edges nl)" and x: "x = (From e, Type e, set (To e))"
    by (auto simp: edge_triples_def)
  have ve: "gm_has (From e) (indexNodes nl)" using v e by blast
  from cleanEdges_complete[OF e ve] obtain e' where e': "e' \<in> set (Edges (cleanEdges tstr rk rt nl))"
    "edgeKey tstr e' = edgeKey tstr e"
    "set (To e') = valid_tos (indexNodes nl) tstr (Edges nl) (edgeKey tstr e)" by blast
  from cleanEdges_sound[OF e'(1)] obtain e2 where e2: "e2 \<in> set (Edges nl)" "From e' = From e2" "Type e' = Type e2"
    by blast
  have "edgeKey tstr e2 = edgeKey tstr e" using e2 e'(2) edgeKey_cong[of e' e2 tstr] by simp
  moreover have "inj_on (edgeKey tstr) (set (Edges nl))" using d by (simp add: distinct_map)
  ultimately have "e2 = e" using e e2(1) by (auto dest: inj_onD)
  moreover have "valid_tos (indexNodes nl) tstr (Edges nl) (edgeKey tstr e) = set (To e)"
    using valid_tos_unique[OF d e] v e by blast
  ultimately have "x = (From e', Type e', set (To e'))" using x e' e2 by simp
  then show "x \<in> edge_triples (cleanEdges tstr rk rt nl)"
    using e'(1) unfolding edge_triples_def by (rule image_eqI)
qed

section \<open>The operations that end with sanitation\<close>

lemma index_nonempty_from:
  "index_nonempty index \<Longrightarrow> index_nonempty (indexEdges_from i es index)"
proof (induction i es index rule: indexEdges_from.induct)
  case (1 i index)
  then show ?case by simp
next
  case (2 i e es index)
  define index1 where "index1 = (if \<not> gm_has (From e) index then gm_store (From e) [] index else index)"
  define inner where "inner = gm_get [] index1 (From e)"
  have g1: "\<And>f. gm_get [] index1 f = gm_get [] index f"
    unfolding index1_def by (rule gm_get_store_default)
  have ne: "\<And>l. l \<noteq> [] \<Longrightarrow> index_nonempty (gm_store (From e) (gm_store (Type e) l inner) index1)"
    using "2.prems" unfolding index_nonempty_def inner_def
    by (auto simp: gm_get_store gm_has_store g1)
  show ?case
  proof (cases "gm_has (Type e) inner")
    case False
    have "index_nonempty (gm_store (From e) (gm_store (Type e) [i] inner) index1)"
      by (rule ne) simp
    from "2.IH"(1)[OF index1_def inner_def False this]
    show ?thesis using False by (simp add: Let_def index1_def[symmetric] inner_def[symmetric])
  next
    case True
    then have T: "\<not> \<not> gm_has (Type e) inner" by simp
    have "index_nonempty (gm_store (From e) (gm_store (Type e) (gm_get [] inner (Type e) @ [i]) inner) index1)"
      by (rule ne) simp
    from "2.IH"(2)[OF index1_def inner_def T this]
    show ?thesis using True by (simp add: Let_def index1_def[symmetric] inner_def[symmetric])
  qed
qed

lemma index_nonempty_indexEdges: "index_nonempty (indexEdges nl)"
  unfolding indexEdges_def
  by (rule index_nonempty_from) (simp add: index_nonempty_def gm_get_def gm_has_def)

lemma Add_edges_total:
  "index_nonempty ex \<Longrightarrow> \<exists>es'. Add_edges ex es2 es = Inr es'"
proof (induction es2 arbitrary: es)
  case Nil
  then show ?case by simp
next
  case (Cons e2 rest)
  show ?case
  proof (cases "gm_has (From e2) ex \<and> gm_has (Type e2) (gm_get [] ex (From e2))")
    case False
    then show ?thesis using Cons.IH[OF Cons.prems, of "es @ [e2]"] by auto
  next
    case True
    then have "gm_get [] (gm_get [] ex (From e2)) (Type e2) \<noteq> []"
      using Cons.prems by (simp add: index_nonempty_def)
    then obtain i l where il: "gm_get [] (gm_get [] ex (From e2)) (Type e2) = i # l"
      by (cases "gm_get [] (gm_get [] ex (From e2)) (Type e2)") auto
    show ?thesis
      using True il Cons.IH[OF Cons.prems, of "es[i := (es ! i)\<lparr>To := To (es ! i) @ To e2\<rparr>]"]
      by simp
  qed
qed

lemma cleanEdges_sanitized: "sanitized (cleanEdges tstr rk rt nl)"
  by (simp add: sanitized_def cleanEdges_no_dangling cleanEdges_no_dup_pairs cleanEdges_dedup_tos)

lemma sanitized_RootElements [simp]: "sanitized (nl\<lparr>RootElements := r\<rparr>) = sanitized nl"
  by (simp add: sanitized_def no_dangling_def no_dup_pairs_def dedup_tos_def node_ids_def)

lemma Add_sanitized:
  "\<exists>nl'. Add aug tstr rk rt nl nl2 = Inr nl' \<and> sanitized nl'"
proof -
  obtain es' where "Add_edges (indexEdges nl) (Edges nl2) (Edges nl) = Inr es'"
    using Add_edges_total[OF index_nonempty_indexEdges] by blast
  then show ?thesis by (simp add: Add_def Let_def cleanEdges_sanitized)
qed

lemma Union_sanitized: "sanitized (Union' upd tstr rk rt nl nl2)"
  by (simp add: Union'_def Let_def cleanEdges_sanitized)

lemma Intersect_sanitized: "sanitized (Intersect upd tstr rn rk rt nl nl2)"
  by (simp add: Intersect_def Let_def cleanEdges_sanitized)

lemma RemoveNodes_sanitized: "sanitized (RemoveNodes tstr rk rt nl ids)"
  by (simp add: RemoveNodes_def Let_def cleanEdges_sanitized)

lemma GetNodesByPurlType_sanitized: "sanitized (GetNodesByPurlType purl tstr rk rt nlopt purlType)"
proof (cases nlopt)
  case None
  then show ?thesis
    by (simp add: GetNodesByPurlType_def sanitized_def no_dangling_def no_dup_pairs_def dedup_tos_def)
next
  case (Some nl)
  then show ?thesis by (simp add: GetNodesByPurlType_def Let_def cleanEdges_sanitized)
qed


section \<open>Edge keys and (origin, type) pairs\<close>

lemma append_sep_inj:
  assumes "a @ sep @ b = a' @ sep @ b'" and "c \<in> set sep" and "sep \<noteq> []" "last sep = c"
    and "c \<notin> set b" and "c \<notin> set b'"
  shows "a = a' \<and> b = b'"
proof -
  obtain s0 where sep: "sep = s0 @ [c]" using assms(3,4) by (metis append_butlast_last_id)
  have "rev b @ c # rev (a @ s0) = rev b' @ c # rev (a' @ s0)"
    using arg_cong[OF assms(1), of rev] by (simp add: sep)
  then have "takeWhile (\<lambda>x. x \<noteq> c) (rev b @ c # rev (a @ s0)) =
             takeWhile (\<lambda>x. x \<noteq> c) (rev b' @ c # rev (a' @ s0))" by simp
  moreover have "takeWhile (\<lambda>x. x \<noteq> c) (rev b @ c # rev (a @ s0)) = rev b"
    using assms(5) by (auto simp: takeWhile_tail)
  moreover have "takeWhile (\<lambda>x. x \<noteq> c) (rev b' @ c # rev (a' @ s0)) = rev b'"
    using assms(6) by (auto simp: takeWhile_tail)
  ultimately have b: "b = b'" by simp
  then have "a = a'" using assms(1) by simp
  then show ?thesis using b by simp
qed

lemma edgeKey_inj:
  assumes "String_ok tstr" and "edgeKey tstr x = edgeKey tstr y"
  shows "From x = From y \<and> Type x = Type y"
proof -
  have np: "CHR ''+'' \<notin> set (tstr (Type x))" "CHR ''+'' \<notin> set (tstr (Type y))"
    using assms(1) by (simp_all add: String_ok_def)
  have "From x @ ''+++'' @ tstr (Type x) = From y @ ''+++'' @ tstr (Type y)"
    using assms(2) by (simp add: edgeKey_def)
  from append_sep_inj[OF this _ _ _ np, of] have "From x = From y \<and> tstr (Type x) = tstr (Type y)"
    by simp
  then show ?thesis using assms(1) by (auto simp: String_ok_def dest: injD)
qed

lemma keys_faithful_String_ok: "String_ok tstr \<Longrightarrow> keys_faithful tstr es"
  unfolding keys_faithful_def by (intro ballI impI) (erule (1) edgeKey_inj)

lemma keys_faithfulD:
  "keys_faithful tstr es \<Longrightarrow> x \<in> set es \<Longrightarrow> y \<in> set es \<Longrightarrow>
   edgeKey tstr x = edgeKey tstr y \<Longrightarrow> From x = From y \<and> Type x = Type y"
  unfolding keys_faithful_def by (drule (1) bspec, drule (1) bspec, erule (1) mp)

lemma keys_faithful_pairs:
  assumes "keys_faithful tstr es'" and "edge_pairs es \<subseteq> edge_pairs es'"
  shows "keys_faithful tstr es"
  unfolding keys_faithful_def
proof (intro ballI impI)
  fix x y assume x: "x \<in> set es" and y: "y \<in> set es" and k: "edgeKey tstr x = edgeKey tstr y"
  have "(From x, Type x) \<in> edge_pairs es" unfolding edge_pairs_def using x by (rule imageI)
  then have "(From x, Type x) \<in> edge_pairs es'" using assms(2) by (rule subsetD[rotated])
  then obtain x' where x': "x' \<in> set es'" "From x' = From x" "Type x' = Type x"
    unfolding edge_pairs_def by auto
  have "(From y, Type y) \<in> edge_pairs es" unfolding edge_pairs_def using y by (rule imageI)
  then have "(From y, Type y) \<in> edge_pairs es'" using assms(2) by (rule subsetD[rotated])
  then obtain y' where y': "y' \<in> set es'" "From y' = From y" "Type y' = Type y"
    unfolding edge_pairs_def by auto
  have "edgeKey tstr x' = edgeKey tstr x" using x' by (simp add: edgeKey_def)
  moreover have "edgeKey tstr y' = edgeKey tstr y" using y' by (simp add: edgeKey_def)
  ultimately have "edgeKey tstr x' = edgeKey tstr y'" using k by simp
  then have "From x' = From y' \<and> Type x' = Type y'"
    by (rule keys_faithfulD[OF assms(1) x'(1) y'(1)])
  then show "From x = From y \<and> Type x = Type y" using x' y' by simp
qed

lemma cleanEdges_pairs:
  assumes "keys_faithful tstr (Edges nl)"
  shows "edge_pairs (Edges (cleanEdges tstr rk rt nl)) =
         {p \<in> edge_pairs (Edges nl). fst p \<in> node_ids nl}"
proof (intro set_eqI iffI)
  fix p assume "p \<in> edge_pairs (Edges (cleanEdges tstr rk rt nl))"
  then obtain e' where e': "e' \<in> set (Edges (cleanEdges tstr rk rt nl))" "p = (From e', Type e')"
    by (auto simp: edge_pairs_def)
  from cleanEdges_sound[OF e'(1)] obtain e where "e \<in> set (Edges nl)" "gm_has (From e) (indexNodes nl)"
    "From e' = From e" "Type e' = Type e" by blast
  then show "p \<in> {p \<in> edge_pairs (Edges nl). fst p \<in> node_ids nl}"
    using e'(2) by (auto simp: edge_pairs_def node_ids_def gm_has_indexNodes)
next
  fix p assume "p \<in> {p \<in> edge_pairs (Edges nl). fst p \<in> node_ids nl}"
  then obtain e where e: "e \<in> set (Edges nl)" "p = (From e, Type e)" "gm_has (From e) (indexNodes nl)"
    by (auto simp: edge_pairs_def node_ids_def gm_has_indexNodes)
  from cleanEdges_complete[OF e(1,3)] obtain e' where e': "e' \<in> set (Edges (cleanEdges tstr rk rt nl))"
    "edgeKey tstr e' = edgeKey tstr e" by blast
  from cleanEdges_sound[OF e'(1)] obtain y where y: "y \<in> set (Edges nl)" "From e' = From y" "Type e' = Type y"
    by blast
  have "edgeKey tstr y = edgeKey tstr e'" using y by (simp add: edgeKey_def)
  then have "edgeKey tstr y = edgeKey tstr e" using e'(2) by simp
  then have "From y = From e \<and> Type y = Type e"
    by (rule keys_faithfulD[OF assms y(1) e(1)])
  then have "p = (From e', Type e')" using y e(2) by simp
  then show "p \<in> edge_pairs (Edges (cleanEdges tstr rk rt nl))"
    using e'(1) unfolding edge_pairs_def by (rule image_eqI)
qed

lemma Edge_Type_String_ok: "String_ok Edge_Type_String"
proof -
  have len: "\<And>t. length (Edge_Type_String t) = (if t < 0 then 1 else 0) + nat \<bar>t\<bar>"
    by (simp add: Edge_Type_String_def)
  have hd_neg: "\<And>t. t < 0 \<Longrightarrow> hd (Edge_Type_String t) = CHR ''-''"
    by (simp add: Edge_Type_String_def)
  have hd_pos: "\<And>t. 0 < t \<Longrightarrow> hd (Edge_Type_String t) = CHR ''I''"
  proof -
    fix t :: int assume "0 < t"
    then obtain n where "nat \<bar>t\<bar> = Suc n" by (cases "nat \<bar>t\<bar>") auto
    then show "hd (Edge_Type_String t) = CHR ''I''" using \<open>0 < t\<close> by (simp add: Edge_Type_String_def)
  qed
  have "inj Edge_Type_String"
  proof (rule injI)
    fix x y :: int assume eq: "Edge_Type_String x = Edge_Type_String y"
    then have l: "(if x < 0 then 1 else 0) + nat \<bar>x\<bar> = (if y < 0 then 1 else 0) + nat \<bar>y\<bar>"
      using len[of x] len[of y] by simp
    have mixed: "\<And>u v. u < 0 \<Longrightarrow> \<not> v < 0 \<Longrightarrow> Edge_Type_String u \<noteq> Edge_Type_String v"
    proof
      fix u v :: int assume u: "u < 0" and v: "\<not> v < 0" and e: "Edge_Type_String u = Edge_Type_String v"
      show False
      proof (cases "v = 0")
        case True
        then show False using len[of u] len[of v] e u by simp
      next
        case False
        then have "0 < v" using v by simp
        then show False using hd_pos[of v] hd_neg[OF u] e by simp
      qed
    qed
    show "x = y"
    proof (cases "x < 0")
      case True
      then have "y < 0" using mixed[of x y] eq by blast
      then show ?thesis using l True by simp
    next
      case False
      then have "\<not> y < 0" using mixed[of y x] eq by auto
      then show ?thesis using l False by simp
    qed
  qed
  moreover have "\<forall>t. CHR ''+'' \<notin> set (Edge_Type_String t)"
    by (auto simp: Edge_Type_String_def)
  ultimately show ?thesis by (simp add: String_ok_def)
qed

section \<open>The edge loop of Intersect\<close>

lemma copyEdgeList_fold: "fold (\<lambda>e nodeCopy. nodeCopy @ [Edge_Copy e]) es acc = acc @ es"
  by (induction es arbitrary: acc) (simp_all add: Edge_Copy_def)

lemma copyEdgeList_eq: "copyEdgeList es = es"
  by (simp add: copyEdgeList_def copyEdgeList_fold)

lemma Intersect_node_Edges: "Edges (Intersect_node upd nl nl2 ni2 r r2 entry ret) = Edges ret"
  by (cases entry) (simp add: Intersect_node_def Let_def split: option.splits)

lemma fold_Intersect_node_Edges:
  "Edges (fold (Intersect_node upd nl nl2 ni2 r r2) entries ret) = Edges ret"
  by (induction entries arbitrary: ret) (simp_all add: Intersect_node_Edges)

lemma GetEdgeByType_from_Some:
  "GetEdgeByType_from k es f t = Some i \<Longrightarrow>
   k \<le> i \<and> i - k < length es \<and> From (es ! (i - k)) = f \<and> Type (es ! (i - k)) = t"
proof (induction k es f t rule: GetEdgeByType_from.induct)
  case (1 i fromElement t)
  then show ?case by simp
next
  case (2 k e es f t)
  show ?case
  proof (cases "From e = f \<and> Type e = t")
    case True
    then show ?thesis using "2.prems" by auto
  next
    case False
    then have "GetEdgeByType_from (Suc k) es f t = Some i" using "2.prems" by auto
    from "2.IH"[OF False this] show ?thesis by (auto simp: Suc_diff_le)
  qed
qed

lemma GetEdgeByType_from_None:
  "GetEdgeByType_from k es f t = None \<Longrightarrow> (f, t) \<notin> edge_pairs es"
  by (induction k es f t rule: GetEdgeByType_from.induct) (auto simp: edge_pairs_def split: if_splits)

lemma edge_pairs_update_To:
  "i < length es \<Longrightarrow> edge_pairs (es[i := (es ! i)\<lparr>To := ts\<rparr>]) = edge_pairs es"
proof -
  assume i: "i < length es"
  have "map (\<lambda>e. (From e, Type e)) (es[i := (es ! i)\<lparr>To := ts\<rparr>]) = map (\<lambda>e. (From e, Type e)) es"
    using i by (simp add: map_update list_update_same_conv)
  then have "set (map (\<lambda>e. (From e, Type e)) (es[i := (es ! i)\<lparr>To := ts\<rparr>])) = set (map (\<lambda>e. (From e, Type e)) es)"
    by simp
  then show ?thesis unfolding edge_pairs_def by simp
qed

lemma Intersect_edge_pairs:
  "edge_pairs (Edges (Intersect_edge e ret)) = insert (From e, Type e) (edge_pairs (Edges ret))"
proof (cases "GetEdgeByType ret (From e) (Type e)")
  case None
  then show ?thesis by (simp add: Intersect_edge_def edge_pairs_def Edge_Copy_def)
next
  case (Some i)
  from GetEdgeByType_from_Some[OF Some[unfolded GetEdgeByType_def]]
  have i: "i < length (Edges ret)" "From (Edges ret ! i) = From e" "Type (Edges ret ! i) = Type e"
    by simp_all
  have "(From (Edges ret ! i), Type (Edges ret ! i)) \<in> edge_pairs (Edges ret)"
    unfolding edge_pairs_def using nth_mem[OF i(1)] by (rule imageI)
  then have "(From e, Type e) \<in> edge_pairs (Edges ret)" using i(2,3) by simp
  then show ?thesis using Some i(1) by (auto simp: Intersect_edge_def Let_def edge_pairs_update_To)
qed

lemma Intersect_edge_Nodes: "Nodes (Intersect_edge e ret) = Nodes ret"
  by (simp add: Intersect_edge_def Let_def split: option.splits)

lemma fold_Intersect_edge_pairs:
  "edge_pairs (Edges (fold Intersect_edge es ret)) = edge_pairs (Edges ret) \<union> edge_pairs es"
proof (induction es arbitrary: ret)
  case Nil
  then show ?case by (simp add: edge_pairs_def)
next
  case (Cons e es)
  have "edge_pairs (e # es) = insert (From e, Type e) (edge_pairs es)" by (simp add: edge_pairs_def)
  then show ?case using Cons.IH[of "Intersect_edge e ret"] by (simp add: Intersect_edge_pairs)
qed

lemma fold_Intersect_edge_Nodes: "Nodes (fold Intersect_edge es ret) = Nodes ret"
  by (induction es arbitrary: ret) (simp_all add: Intersect_edge_Nodes)

lemma node_ids_cong: "Nodes nl' = Nodes nl \<Longrightarrow> node_ids nl' = node_ids nl"
  by (simp add: node_ids_def)

section \<open>The nodes of Intersect\<close>

lemma indexNodes_from_entries:
  "(k, p) \<in> set (indexNodes_from i ns ret) \<Longrightarrow>
   (k, p) \<in> set ret \<or> (i \<le> p \<and> p - i < length ns \<and> Id' (ns ! (p - i)) = k)"
proof (induction i ns ret rule: indexNodes_from.induct)
  case (1 i ret)
  then show ?case by simp
next
  case (2 i n ns ret)
  from "2.IH"[OF "2.prems"[simplified]] show ?case
  proof
    assume "(k, p) \<in> set (gm_store (Id' n) i ret)"
    then have "(k, p) = (Id' n, i) \<or> (k, p) \<in> set ret"
      using set_gm_store_subset[of "Id' n" i ret] by auto
    then show ?thesis by auto
  next
    assume "Suc i \<le> p \<and> p - Suc i < length ns \<and> Id' (ns ! (p - Suc i)) = k"
    then show ?thesis by (auto simp: Suc_diff_le nth_Cons')
  qed
qed

lemma indexNodes_entry:
  "(k, p) \<in> set (indexNodes nl) \<Longrightarrow> p < length (Nodes nl) \<and> Id' (Nodes nl ! p) = k"
  using indexNodes_from_entries[of k p 0 "Nodes nl" "[]"] by (simp add: indexNodes_def)

lemma indexNodes_lookup:
  "map_of (indexNodes nl) k = Some p \<Longrightarrow> p < length (Nodes nl) \<and> Id' (Nodes nl ! p) = k"
  by (rule indexNodes_entry) (rule map_of_SomeD)

lemma keys_indexNodes: "fst ` set (indexNodes nl) = node_ids nl"
  by (simp add: indexNodes_def keys_indexNodes_from node_ids_def)

lemma Intersect_node_ids:
  assumes "keeps_id upd" and "Id' (Nodes nl ! p) = k"
  shows "Id' ` set (Nodes (Intersect_node upd nl nl2 (indexNodes nl2) r r2 (k, p) ret)) =
         Id' ` set (Nodes ret) \<union> (if k \<in> node_ids nl2 then {k} else {})"
proof (cases "map_of (indexNodes nl2) k")
  case None
  then have "k \<notin> node_ids nl2"
    unfolding keys_indexNodes[symmetric] by (simp add: map_of_eq_None_iff)
  then show ?thesis using None by (simp add: Intersect_node_def)
next
  case (Some p2)
  then have k2: "k \<in> node_ids nl2"
    unfolding keys_indexNodes[symmetric] using map_of_SomeD by (force simp: image_iff)
  have "Id' (Nodes nl2 ! p2) = k" using indexNodes_lookup[OF Some] by simp
  then have "Id' (upd (Node_Copy (Nodes nl ! p)) (Nodes nl2 ! p2)) = k"
    using assms by (simp add: keeps_id_def Node_Copy_def)
  then show ?thesis using Some k2 by (auto simp: Intersect_node_def Let_def)
qed

lemma fold_Intersect_node_ids:
  assumes "keeps_id upd" and "\<forall>(k, p) \<in> set entries. Id' (Nodes nl ! p) = k"
  shows "Id' ` set (Nodes (fold (Intersect_node upd nl nl2 (indexNodes nl2) r r2) entries ret)) =
         Id' ` set (Nodes ret) \<union> (fst ` set entries \<inter> node_ids nl2)"
  using assms(2)
proof (induction entries arbitrary: ret)
  case Nil
  then show ?case by simp
next
  case (Cons entry entries)
  obtain k p where kp: "entry = (k, p)" by (cases entry)
  have h: "Id' (Nodes nl ! p) = k" using Cons.prems kp by simp
  have rest: "\<forall>(k, p) \<in> set entries. Id' (Nodes nl ! p) = k" using Cons.prems by simp
  show ?case
    using Cons.IH[OF rest, of "Intersect_node upd nl nl2 (indexNodes nl2) r r2 (k, p) ret"]
      Intersect_node_ids[OF assms(1) h, of nl2 r r2 ret]
    by (auto simp: kp)
qed

lemma Intersect_node_ids_result:
  assumes "keeps_id upd"
  shows "node_ids (Intersect upd tstr rn rk rt nl nl2) = node_ids nl \<inter> node_ids nl2"
proof -
  define entries where "entries = range_order rn (indexNodes nl)"
  define ret1 where "ret1 = fold (Intersect_node upd nl nl2 (indexNodes nl2) (indexRootElements nl)
      (indexRootElements nl2)) entries
      \<lparr>Nodes = [], Edges = copyEdgeList (Edges nl), RootElements = []\<rparr>"
  have s: "set entries = set (indexNodes nl)" by (simp add: entries_def set_range_order)
  have v: "\<forall>(k, p) \<in> set entries. Id' (Nodes nl ! p) = k"
    unfolding s using indexNodes_entry by auto
  have "Id' ` set (Nodes ret1) = fst ` set entries \<inter> node_ids nl2"
    unfolding ret1_def fold_Intersect_node_ids[OF assms v] by simp
  then have n1: "node_ids ret1 = node_ids nl \<inter> node_ids nl2"
    unfolding s keys_indexNodes by (simp add: node_ids_def)
  have "Nodes (Intersect upd tstr rn rk rt nl nl2) = Nodes ret1"
    by (simp add: Intersect_def Let_def ret1_def entries_def fold_Intersect_edge_Nodes)
  then show ?thesis using n1 by (simp add: node_ids_def)
qed

lemma keeps_id_Node_Update: "keeps_id Node_Update"
  by (simp add: keeps_id_def Node_Update_def)

section \<open>The destinations of the edges of Intersect\<close>

lemma pair_dests_Nil: "pair_dests [] p = {}"
  by (simp add: pair_dests_def)

lemma pair_dests_Cons:
  "pair_dests (e # es) p = (if (From e, Type e) = p then set (To e) else {}) \<union> pair_dests es p"
  by (auto simp: pair_dests_def)

lemma pair_dests_append: "pair_dests (xs @ ys) p = pair_dests xs p \<union> pair_dests ys p"
  by (auto simp: pair_dests_def)

lemma pair_dests_update:
  "i < length es \<Longrightarrow> set ts = set (To (es ! i)) \<union> S \<Longrightarrow>
   pair_dests (es[i := (es ! i)\<lparr>To := ts\<rparr>]) p =
     pair_dests es p \<union> (if (From (es ! i), Type (es ! i)) = p then S else {})"
proof (induction es arbitrary: i)
  case Nil
  then show ?case by simp
next
  case (Cons e es)
  show ?case
  proof (cases i)
    case 0
    then show ?thesis using Cons.prems by (auto simp: pair_dests_Cons)
  next
    case (Suc j)
    then have j: "j < length es" "set ts = set (To (es ! j)) \<union> S" using Cons.prems by simp_all
    show ?thesis using Cons.IH[OF j] Suc by (auto simp: pair_dests_Cons)
  qed
qed

lemma gm_has_fold_store:
  "gm_has t (fold (\<lambda>t d. gm_store t () d) xs d0) \<longleftrightarrow> t \<in> set xs \<or> gm_has t d0"
  by (induction xs arbitrary: d0) (auto simp: gm_has_store)

lemma set_fold_unseen:
  "set (fold (\<lambda>to acc. if \<not> gm_has to invDict then acc @ [to] else acc) tos acc) =
   set acc \<union> {t \<in> set tos. \<not> gm_has t invDict}"
  by (induction tos arbitrary: acc) auto

lemma Intersect_edge_dests:
  "pair_dests (Edges (Intersect_edge e ret)) p =
   pair_dests (Edges ret) p \<union> (if (From e, Type e) = p then set (To e) else {})"
proof (cases "GetEdgeByType ret (From e) (Type e)")
  case None
  then show ?thesis
    by (simp add: Intersect_edge_def pair_dests_append pair_dests_Cons pair_dests_Nil Edge_Copy_def)
next
  case (Some i)
  from GetEdgeByType_from_Some[OF Some[unfolded GetEdgeByType_def]]
  have i: "i < length (Edges ret)" "From (Edges ret ! i) = From e" "Type (Edges ret ! i) = Type e"
    by simp_all
  define ex where "ex = Edges ret ! i"
  define tos where "tos = fold (\<lambda>to acc. if \<not> gm_has to (fold (\<lambda>t d. gm_store t () d) (To ex) [])
      then acc @ [to] else acc) (To e) (To ex)"
  have inv: "\<And>t. gm_has t (fold (\<lambda>t d. gm_store t () d) (To ex) []) \<longleftrightarrow> t \<in> set (To ex)"
    unfolding gm_has_fold_store by (simp add: gm_has_def)
  have "set tos = set (To ex) \<union>
      {t \<in> set (To e). \<not> gm_has t (fold (\<lambda>t d. gm_store t () d) (To ex) [])}"
    unfolding tos_def by (rule set_fold_unseen)
  then have "set tos = set (To ex) \<union> {t \<in> set (To e). t \<notin> set (To ex)}"
    by (simp only: inv)
  then have st: "set tos = set (To (Edges ret ! i)) \<union> set (To e)" unfolding ex_def by auto
  have E: "Edges (Intersect_edge e ret) = (Edges ret)[i := (Edges ret ! i)\<lparr>To := tos\<rparr>]"
    using Some by (simp add: Intersect_edge_def Let_def tos_def ex_def)
  show ?thesis unfolding E pair_dests_update[OF i(1) st] using i(2,3) by simp
qed

lemma fold_Intersect_edge_dests:
  "pair_dests (Edges (fold Intersect_edge es ret)) p = pair_dests (Edges ret) p \<union> pair_dests es p"
proof (induction es arbitrary: ret)
  case Nil
  then show ?case by (simp add: pair_dests_Nil)
next
  case (Cons e es)
  show ?case using Cons.IH[of "Intersect_edge e ret"]
    by (simp add: Intersect_edge_dests pair_dests_Cons Un_assoc)
qed

lemma valid_tos_faithful:
  assumes kf: "keys_faithful tstr es" and e: "e \<in> set es" and v: "gm_has (From e) idx"
  shows "valid_tos idx tstr es (edgeKey tstr e) = {d \<in> pair_dests es (From e, Type e). gm_has d idx}"
proof -
  have "{e2 \<in> set es. gm_has (From e2) idx \<and> edgeKey tstr e2 = edgeKey tstr e} =
        {e2 \<in> set es. (From e2, Type e2) = (From e, Type e)}"
  proof (intro set_eqI iffI)
    fix x assume "x \<in> {e2 \<in> set es. gm_has (From e2) idx \<and> edgeKey tstr e2 = edgeKey tstr e}"
    then have x: "x \<in> set es" "edgeKey tstr x = edgeKey tstr e" by simp_all
    from keys_faithfulD[OF kf x(1) e x(2)]
    show "x \<in> {e2 \<in> set es. (From e2, Type e2) = (From e, Type e)}" using x(1) by simp
  next
    fix x assume "x \<in> {e2 \<in> set es. (From e2, Type e2) = (From e, Type e)}"
    then have x: "x \<in> set es" "From x = From e" "Type x = Type e" by simp_all
    then have "edgeKey tstr x = edgeKey tstr e" by (simp add: edgeKey_def)
    then show "x \<in> {e2 \<in> set es. gm_has (From e2) idx \<and> edgeKey tstr e2 = edgeKey tstr e}"
      using x v by simp
  qed
  then show ?thesis unfolding valid_tos_def pair_dests_def by auto
qed

lemma cleanEdges_dests:
  assumes kf: "keys_faithful tstr (Edges nl)" and e': "e' \<in> set (Edges (cleanEdges tstr rk rt nl))"
  shows "set (To e') = {d \<in> pair_dests (Edges nl) (From e', Type e'). d \<in> node_ids nl}"
proof -
  from cleanEdges_sound[OF e'] obtain e where e: "e \<in> set (Edges nl)" "gm_has (From e) (indexNodes nl)"
    "From e' = From e" "Type e' = Type e"
    "set (To e') = valid_tos (indexNodes nl) tstr (Edges nl) (edgeKey tstr e)" by blast
  show ?thesis unfolding e(5) valid_tos_faithful[OF kf e(1,2)] e(3,4)
    by (simp add: node_ids_def gm_has_indexNodes)
qed

lemma Intersect_as_cleanEdges:
  "\<exists>ret2. Intersect upd tstr rn rk rt nl nl2 = cleanEdges tstr rk rt ret2 \<and>
     edge_pairs (Edges ret2) = edge_pairs (Edges nl) \<union> edge_pairs (Edges nl2) \<and>
     (\<forall>p. pair_dests (Edges ret2) p = pair_dests (Edges nl) p \<union> pair_dests (Edges nl2) p)"
proof -
  define ret1 where "ret1 = fold (Intersect_node upd nl nl2 (indexNodes nl2) (indexRootElements nl)
      (indexRootElements nl2)) (range_order rn (indexNodes nl))
      \<lparr>Nodes = [], Edges = copyEdgeList (Edges nl), RootElements = []\<rparr>"
  define ret2 where "ret2 = fold Intersect_edge (Edges nl2) ret1"
  have R: "Intersect upd tstr rn rk rt nl nl2 = cleanEdges tstr rk rt ret2"
    by (simp add: Intersect_def Let_def ret1_def ret2_def)
  have E1: "Edges ret1 = Edges nl" by (simp add: ret1_def fold_Intersect_node_Edges copyEdgeList_eq)
  have p2: "edge_pairs (Edges ret2) = edge_pairs (Edges nl) \<union> edge_pairs (Edges nl2)"
    by (simp add: ret2_def fold_Intersect_edge_pairs E1)
  have d2: "\<forall>p. pair_dests (Edges ret2) p = pair_dests (Edges nl) p \<union> pair_dests (Edges nl2) p"
    by (simp add: ret2_def fold_Intersect_edge_dests E1)
  show ?thesis using R p2 d2 by blast
qed

section \<open>Edges that lose every destination\<close>

lemma cleanEdges_emptied_edge_retained:
  assumes "e \<in> set (Edges nl)" and "From e \<in> node_ids nl"
    and "keys_faithful tstr (Edges nl)"
    and "no_destination_left nl e"
  shows "\<exists>e' \<in> set (Edges (cleanEdges tstr rk rt nl)).
           From e' = From e \<and> Type e' = Type e \<and> To e' = []"
proof -
  have v: "gm_has (From e) (indexNodes nl)" using assms(2) by (simp add: node_ids_def gm_has_indexNodes)
  from cleanEdges_complete[OF assms(1) v] obtain e' where e': "e' \<in> set (Edges (cleanEdges tstr rk rt nl))"
    "edgeKey tstr e' = edgeKey tstr e"
    "set (To e') = valid_tos (indexNodes nl) tstr (Edges nl) (edgeKey tstr e)" by blast
  from cleanEdges_sound[OF e'(1)] obtain y where y: "y \<in> set (Edges nl)" "From e' = From y" "Type e' = Type y"
    by blast
  have "edgeKey tstr y = edgeKey tstr e'" using y by (simp add: edgeKey_def)
  then have "edgeKey tstr y = edgeKey tstr e" using e'(2) by simp
  then have ye: "From y = From e \<and> Type y = Type e"
    by (rule keys_faithfulD[OF assms(3) y(1) assms(1)])
  have "valid_tos (indexNodes nl) tstr (Edges nl) (edgeKey tstr e) = {}"
  proof (rule ccontr)
    assume "valid_tos (indexNodes nl) tstr (Edges nl) (edgeKey tstr e) \<noteq> {}"
    then obtain e2 d where e2: "e2 \<in> set (Edges nl)" "edgeKey tstr e2 = edgeKey tstr e"
      "d \<in> set (To e2)" "gm_has d (indexNodes nl)" by (auto simp: valid_tos_def)
    have "From e2 = From e \<and> Type e2 = Type e"
      by (rule keys_faithfulD[OF assms(3) e2(1) assms(1) e2(2)])
    then have "d \<notin> node_ids nl" using assms(4) e2(1,3) unfolding no_destination_left_def by blast
    then show False using e2(4) by (simp add: node_ids_def gm_has_indexNodes)
  qed
  then have "To e' = []" using e'(3) by simp
  then show ?thesis using e'(1) y ye by auto
qed

section \<open>The scenario of the spec\<close>

lemmas scenario_eval = scenario_A_def scenario_B_def bare_node_def Let_def
    indexNodes_def indexEdges_def indexRootElements_def cleanEdges_def cleanEdges_step_def
    gm_has_def gm_get_def gm_keys_def edgeKey_def copyEdgeList_def Edge_Copy_def Node_Copy_def
    Union_edge_def Intersect_edge_def Intersect_node_def GetEdgeByType_def PointsTo_def
    range_order_single

lemma scenario_Union_Nodes: "Nodes (Union' upd tstr rk rt scenario_A scenario_B) =
     [bare_node ''a'', upd (bare_node ''b'') (bare_node ''b''), bare_node ''c'']"
  by (simp add: Union'_def scenario_eval)

lemma scenario_Union_RootElements: "RootElements (Union' upd tstr rk rt scenario_A scenario_B) = [''a'', ''b'']"
  by (simp add: Union'_def scenario_eval)

lemma scenario_Union_Edges: "Id' (upd (bare_node ''b'') (bare_node ''b'')) = ''b'' \<Longrightarrow> set (Edges (Union' upd tstr rk rt scenario_A scenario_B)) =
     {\<lparr>Type = 1, From = ''a'', To = [''b'']\<rparr>, \<lparr>Type = 1, From = ''b'', To = [''c'']\<rparr>}"
  by (simp add: Union'_def scenario_eval set_range_order)

lemma scenario_Union_Edges_length: "Id' (upd (bare_node ''b'') (bare_node ''b'')) = ''b'' \<Longrightarrow> length (Edges (Union' upd tstr rk rt scenario_A scenario_B)) = 2"
  by (simp add: Union'_def scenario_eval length_range_order)

lemma scenario_Intersect: "Id' (upd (bare_node ''b'') (bare_node ''b'')) = ''b'' \<Longrightarrow> Intersect upd tstr rn rk rt scenario_A scenario_B =
     \<lparr>Nodes = [upd (bare_node ''b'') (bare_node ''b'')],
      Edges = [\<lparr>Type = 1, From = ''b'', To = []\<rparr>], RootElements = [''b'']\<rparr>"
  using range_order_two[of rn "(''a'', 0::nat)" "(''b'', Suc 0)"]
  by (auto simp add: Intersect_def scenario_eval)

section \<open>RelateNodeListAtID through pointers\<close>


section \<open>Claims\<close>

text \<open>
  C1: the code departs from the claim. For a node of nl2 whose id the receiver has, Add
  calls Augment on the receiver's node with that same node as the argument, so nothing
  of nl2's node reaches the receiver: here the receiver's node a has no name, nl2's node
  a is named x, gap-filling from nl2's node would give the name x, and Add leaves the
  receiver's node without a name.
\<close>

theorem Add_augments_node_from_itself:
  "Add Node_Augment Edge_Type_String [] insertion_order
     \<lparr>Nodes = [bare_node ''a''], Edges = [], RootElements = []\<rparr>
     \<lparr>Nodes = [(bare_node ''a'')\<lparr>Name := ''x''\<rparr>], Edges = [], RootElements = []\<rparr> =
   Inr \<lparr>Nodes = [bare_node ''a''], Edges = [], RootElements = []\<rparr> \<and>
   Node_Augment (bare_node ''a'') ((bare_node ''a'')\<lparr>Name := ''x''\<rparr>) =
     (bare_node ''a'')\<lparr>Name := ''x''\<rparr> \<and>
   (bare_node ''a'')\<lparr>Name := ''x''\<rparr> \<noteq> bare_node ''a''"
  by code_simp

text \<open>
  C2. The list produced by each of Add, Union, Intersect, RemoveNodes and
  GetNodesByPurlType has no dangling edge (the origin and every destination of each edge
  are ids of nodes of the result) and no two edges with the same (origin, type) pair.
  Add returns a list on every input.
\<close>

theorem produced_lists_edge_invariants:
  "(\<exists>nl'. Add aug tstr rk rt nl nl2 = Inr nl' \<and> no_dangling nl' \<and> no_dup_pairs nl') \<and>
   (no_dangling (Union' upd tstr rk rt nl nl2) \<and> no_dup_pairs (Union' upd tstr rk rt nl nl2)) \<and>
   (no_dangling (Intersect upd tstr rn rk rt nl nl2) \<and>
    no_dup_pairs (Intersect upd tstr rn rk rt nl nl2)) \<and>
   (no_dangling (RemoveNodes tstr rk rt nl ids) \<and> no_dup_pairs (RemoveNodes tstr rk rt nl ids)) \<and>
   (no_dangling (GetNodesByPurlType purl tstr rk rt nlopt purlType) \<and>
    no_dup_pairs (GetNodesByPurlType purl tstr rk rt nlopt purlType))"
  using Add_sanitized[of aug tstr rk rt nl nl2] Union_sanitized[of upd tstr rk rt nl nl2]
    Intersect_sanitized[of upd tstr rn rk rt nl nl2] RemoveNodes_sanitized[of tstr rk rt nl ids]
    GetNodesByPurlType_sanitized[of purl tstr rk rt nlopt purlType]
  unfolding sanitized_def by blast

theorem produced_lists_edge_invariants_witness:
  "Edges (Union' Node_Update Edge_Type_String [] insertion_order scenario_A scenario_B) =
     [\<lparr>Type = 1, From = ''a'', To = [''b'']\<rparr>, \<lparr>Type = 1, From = ''b'', To = [''c'']\<rparr>] \<and>
   no_dangling (Union' Node_Update Edge_Type_String [] insertion_order scenario_A scenario_B) \<and>
   no_dup_pairs (Union' Node_Update Edge_Type_String [] insertion_order scenario_A scenario_B)"
proof -
  have "Edges (Union' Node_Update Edge_Type_String [] insertion_order scenario_A scenario_B) =
     [\<lparr>Type = 1, From = ''a'', To = [''b'']\<rparr>, \<lparr>Type = 1, From = ''b'', To = [''c'']\<rparr>]"
    by code_simp
  then show ?thesis
    using produced_lists_edge_invariants[of Node_Augment Edge_Type_String "[]" insertion_order
        scenario_A scenario_B Node_Update "[]" "[]" Node_Purl None "[]"]
    by blast
qed

text \<open>
  C3, as the claim states it, fails: A has no edge, B has the edge from a to b, both
  have the nodes a and b, and Intersect returns the edge from a to b.
\<close>

theorem Intersect_introduces_edge_counterexample:
  "Edges overlap_A = [] \<and>
   Edges (Intersect Node_Update Edge_Type_String [] [] insertion_order overlap_A overlap_B) =
     [\<lparr>Type = 1, From = ''a'', To = [''b'']\<rparr>]"
  by code_simp

text \<open>
  C3, amended. Intersect copies A's edges and, for each edge of B, widens the first edge
  of the same (origin, type) pair with B's destinations or, when there is none yet,
  appends a copy of B's edge; sanitation follows. So the (origin, type) pairs of the
  result's edges are exactly the pairs of the edges of A and of B whose origin is a node
  of the result: a pair that only B has yields an edge whenever its origin is in both
  lists. The destinations of each edge of the result are exactly the destinations of
  A's and of B's edges of its pair that are nodes of the result; the result has one edge
  for a pair, without a repeated destination. The nodes of the result have the ids that
  both lists have, for an overlay that keeps the id. (The hypothesis on the keys holds
  for every pair of lists when \<open>String_ok tstr\<close>.)
\<close>

theorem Intersect_edges_of_both:
  assumes "keys_faithful tstr (Edges nl @ Edges nl2)" and "keeps_id upd"
  shows "node_ids (Intersect upd tstr rn rk rt nl nl2) = node_ids nl \<inter> node_ids nl2 \<and>
         edge_pairs (Edges (Intersect upd tstr rn rk rt nl nl2)) =
           {p \<in> edge_pairs (Edges nl) \<union> edge_pairs (Edges nl2).
              fst p \<in> node_ids (Intersect upd tstr rn rk rt nl nl2)} \<and>
         (\<forall>e' \<in> set (Edges (Intersect upd tstr rn rk rt nl nl2)).
            set (To e') =
              {d \<in> pair_dests (Edges nl) (From e', Type e') \<union> pair_dests (Edges nl2) (From e', Type e').
                 d \<in> node_ids (Intersect upd tstr rn rk rt nl nl2)}) \<and>
         no_dup_pairs (Intersect upd tstr rn rk rt nl nl2) \<and>
         dedup_tos (Intersect upd tstr rn rk rt nl nl2)"
proof -
  from Intersect_as_cleanEdges[of upd tstr rn rk rt nl nl2] obtain ret2 where
    R: "Intersect upd tstr rn rk rt nl nl2 = cleanEdges tstr rk rt ret2"
    and p2: "edge_pairs (Edges ret2) = edge_pairs (Edges nl) \<union> edge_pairs (Edges nl2)"
    and d2: "\<And>p. pair_dests (Edges ret2) p = pair_dests (Edges nl) p \<union> pair_dests (Edges nl2) p"
    by blast
  have "edge_pairs (Edges ret2) \<subseteq> edge_pairs (Edges nl @ Edges nl2)"
    unfolding p2 by (auto simp: edge_pairs_def)
  with assms(1) have kf: "keys_faithful tstr (Edges ret2)" by (rule keys_faithful_pairs)
  have n: "node_ids (cleanEdges tstr rk rt ret2) = node_ids ret2" by (simp add: node_ids_def)
  have i: "node_ids (Intersect upd tstr rn rk rt nl nl2) = node_ids nl \<inter> node_ids nl2"
    by (rule Intersect_node_ids_result[OF assms(2)])
  have a: "edge_pairs (Edges (Intersect upd tstr rn rk rt nl nl2)) =
           {p \<in> edge_pairs (Edges nl) \<union> edge_pairs (Edges nl2).
              fst p \<in> node_ids (Intersect upd tstr rn rk rt nl nl2)}"
    unfolding R n p2[symmetric] by (rule cleanEdges_pairs[OF kf])
  have b: "\<forall>e' \<in> set (Edges (Intersect upd tstr rn rk rt nl nl2)).
            set (To e') =
              {d \<in> pair_dests (Edges nl) (From e', Type e') \<union> pair_dests (Edges nl2) (From e', Type e').
                 d \<in> node_ids (Intersect upd tstr rn rk rt nl nl2)}"
    unfolding R n d2[symmetric] by (intro ballI) (rule cleanEdges_dests[OF kf])
  have c: "no_dup_pairs (Intersect upd tstr rn rk rt nl nl2)"
    unfolding R by (rule cleanEdges_no_dup_pairs)
  have d: "dedup_tos (Intersect upd tstr rn rk rt nl nl2)"
    unfolding R by (rule cleanEdges_dedup_tos)
  show ?thesis by (rule conjI[OF i conjI[OF a conjI[OF b conjI[OF c d]]]])
qed

theorem Intersect_edges_of_both_witness:
  "keys_faithful Edge_Type_String (Edges widen_A @ Edges widen_B) \<and>
   keeps_id Node_Update \<and>
   Edges (Intersect Node_Update Edge_Type_String [] [] insertion_order widen_A widen_B) =
     [\<lparr>Type = 1, From = ''a'', To = [''b'', ''a'']\<rparr>, \<lparr>Type = 1, From = ''b'', To = [''a'']\<rparr>] \<and>
   node_ids (Intersect Node_Update Edge_Type_String [] [] insertion_order widen_A widen_B) =
     node_ids widen_A \<inter> node_ids widen_B \<and>
   set [''b'', ''a''] =
     {d \<in> pair_dests (Edges widen_A) (''a'', 1) \<union> pair_dests (Edges widen_B) (''a'', 1).
        d \<in> node_ids (Intersect Node_Update Edge_Type_String [] [] insertion_order widen_A widen_B)} \<and>
   edge_pairs (Edges (Intersect Node_Update Edge_Type_String [] [] insertion_order widen_A widen_B)) =
     {p \<in> edge_pairs (Edges widen_A) \<union> edge_pairs (Edges widen_B).
        fst p \<in> node_ids (Intersect Node_Update Edge_Type_String [] [] insertion_order widen_A widen_B)}"
proof -
  have h: "keys_faithful Edge_Type_String (Edges widen_A @ Edges widen_B)" by code_simp
  have u: "keeps_id Node_Update" by (simp add: keeps_id_def Node_Update_def)
  have R: "Edges (Intersect Node_Update Edge_Type_String [] [] insertion_order widen_A widen_B) =
     [\<lparr>Type = 1, From = ''a'', To = [''b'', ''a'']\<rparr>, \<lparr>Type = 1, From = ''b'', To = [''a'']\<rparr>]"
    by code_simp
  note T = Intersect_edges_of_both[OF h u, of "[]" "[]" insertion_order]
  have mem: "\<lparr>Type = 1, From = ''a'', To = [''b'', ''a'']\<rparr> \<in>
      set (Edges (Intersect Node_Update Edge_Type_String [] [] insertion_order widen_A widen_B))"
    unfolding R by simp
  have t: "set [''b'', ''a''] =
     {d \<in> pair_dests (Edges widen_A) (''a'', 1) \<union> pair_dests (Edges widen_B) (''a'', 1).
        d \<in> node_ids (Intersect Node_Update Edge_Type_String [] [] insertion_order widen_A widen_B)}"
    using bspec[OF conjunct1[OF conjunct2[OF conjunct2[OF T]]] mem] by (simp only: Edge.simps)
  show ?thesis
    by (rule conjI[OF h conjI[OF u conjI[OF R conjI[OF conjunct1[OF T]
          conjI[OF t conjunct1[OF conjunct2[OF T]]]]]]])
qed

text \<open>
  C4, as the claim states it, fails in its last part: Intersect of the scenario returns
  one edge, from b, with no destination, where the claim has no edges.
\<close>

theorem scenario_Intersect_counterexample:
  "Edges (Intersect Node_Update Edge_Type_String [] [] insertion_order scenario_A scenario_B) =
     [\<lparr>Type = 1, From = ''b'', To = []\<rparr>]"
  by code_simp

text \<open>
  C4, amended. For an overlay that keeps the id of node b, whatever the visiting order
  of the maps: Union of the scenario yields the nodes a, b (overlaid), c, exactly the two
  edges from a to b and from b to c, and the roots a, b; Intersect yields the node b
  (overlaid), the root b, and one edge from b with an empty destination list.
\<close>

theorem scenario_results:
  assumes "Id' (upd (bare_node ''b'') (bare_node ''b'')) = ''b''"
  shows "Nodes (Union' upd tstr rk rt scenario_A scenario_B) =
           [bare_node ''a'', upd (bare_node ''b'') (bare_node ''b''), bare_node ''c''] \<and>
         set (Edges (Union' upd tstr rk rt scenario_A scenario_B)) =
           {\<lparr>Type = 1, From = ''a'', To = [''b'']\<rparr>, \<lparr>Type = 1, From = ''b'', To = [''c'']\<rparr>} \<and>
         length (Edges (Union' upd tstr rk rt scenario_A scenario_B)) = 2 \<and>
         RootElements (Union' upd tstr rk rt scenario_A scenario_B) = [''a'', ''b''] \<and>
         Intersect upd tstr rn rk rt scenario_A scenario_B =
           \<lparr>Nodes = [upd (bare_node ''b'') (bare_node ''b'')],
            Edges = [\<lparr>Type = 1, From = ''b'', To = []\<rparr>], RootElements = [''b'']\<rparr>"
  using scenario_Union_Nodes[of upd tstr rk rt] scenario_Union_Edges[of upd tstr rk rt, OF assms]
    scenario_Union_Edges_length[of upd tstr rk rt, OF assms]
    scenario_Union_RootElements[of upd tstr rk rt] scenario_Intersect[of upd tstr rn rk rt, OF assms]
  by blast

theorem scenario_results_witness:
  "Id' (Node_Update (bare_node ''b'') (bare_node ''b'')) = ''b'' \<and>
   set (Edges (Union' Node_Update Edge_Type_String [1] insertion_order scenario_A scenario_B)) =
     {\<lparr>Type = 1, From = ''a'', To = [''b'']\<rparr>, \<lparr>Type = 1, From = ''b'', To = [''c'']\<rparr>} \<and>
   Intersect Node_Update Edge_Type_String [1] [] insertion_order scenario_A scenario_B =
     \<lparr>Nodes = [bare_node ''b''], Edges = [\<lparr>Type = 1, From = ''b'', To = []\<rparr>],
      RootElements = [''b'']\<rparr>"
proof -
  have h: "Id' (Node_Update (bare_node ''b'') (bare_node ''b'')) = ''b''"
    by (simp add: Node_Update_def bare_node_def)
  have n: "Node_Update (bare_node ''b'') (bare_node ''b'') = bare_node ''b''"
    by (simp add: Node_Update_def bare_node_def)
  note r = scenario_results[of Node_Update Edge_Type_String "[1]" insertion_order "[1]", OF h, unfolded n]
  note r' = scenario_results[of Node_Update Edge_Type_String "[]" insertion_order "[1]", OF h, unfolded n]
  have a: "set (Edges (Union' Node_Update Edge_Type_String [1] insertion_order scenario_A scenario_B)) =
     {\<lparr>Type = 1, From = ''a'', To = [''b'']\<rparr>, \<lparr>Type = 1, From = ''b'', To = [''c'']\<rparr>}"
    using r by (elim conjE)
  have b: "Intersect Node_Update Edge_Type_String [1] [] insertion_order scenario_A scenario_B =
     \<lparr>Nodes = [bare_node ''b''], Edges = [\<lparr>Type = 1, From = ''b'', To = []\<rparr>],
      RootElements = [''b'']\<rparr>"
    using r' by (elim conjE)
  show ?thesis by (rule conjI[OF h conjI[OF a b]])
qed

text \<open>
  C5, as the claim states it, fails: AddEdge appends its edge and runs no sanitation, so
  an edge between two ids that are not nodes stays dangling; RelateNodeListAtID extends
  the existing edge of scenario A with the root of B, a destination it already has.
\<close>

theorem unsanitized_mutators_counterexample:
  "\<not> no_dangling (AddEdge \<lparr>Nodes = [], Edges = [], RootElements = []\<rparr>
                      \<lparr>Type = 1, From = ''a'', To = [''b'']\<rparr>) \<and>
   \<not> dedup_tos (snd (RelateNodeListAtID scenario_A scenario_B ''a'' 1))"
  by code_simp

text \<open>
  C5, amended. Add, Union, Intersect, RemoveNodes and GetNodesByPurlType end with the
  sanitation pass (Union merges the root ids after it), and the list they produce
  satisfies the three edge invariants. AddEdge and AddNode append their argument and
  do nothing else.
\<close>

theorem sanitizing_operations:
  "(\<exists>nl'. Add aug tstr rk rt nl nl2 = Inr nl' \<and> sanitized nl') \<and>
   sanitized (Union' upd tstr rk rt nl nl2) \<and>
   sanitized (Intersect upd tstr rn rk rt nl nl2) \<and>
   sanitized (RemoveNodes tstr rk rt nl ids) \<and>
   sanitized (GetNodesByPurlType purl tstr rk rt nlopt purlType) \<and>
   AddEdge nl e = nl\<lparr>Edges := Edges nl @ [e]\<rparr> \<and>
   AddNode nl n = nl\<lparr>Nodes := Nodes nl @ [n]\<rparr>"
  by (simp add: Add_sanitized Union_sanitized Intersect_sanitized RemoveNodes_sanitized
      GetNodesByPurlType_sanitized AddEdge_def AddNode_def)

theorem sanitizing_operations_witness:
  "Edges (RemoveNodes Edge_Type_String [] insertion_order scenario_A [''b'']) =
     [\<lparr>Type = 1, From = ''a'', To = []\<rparr>] \<and>
   sanitized (RemoveNodes Edge_Type_String [] insertion_order scenario_A [''b''])"
proof -
  have "Edges (RemoveNodes Edge_Type_String [] insertion_order scenario_A [''b'']) =
     [\<lparr>Type = 1, From = ''a'', To = []\<rparr>]"
    by code_simp
  then show ?thesis
    using sanitizing_operations[of Node_Augment Edge_Type_String "[]" insertion_order
        scenario_A scenario_B Node_Update "[]" "[''b'']" Node_Purl None "[]"]
    by blast
qed




text \<open>
  C7. Edge sanitation is idempotent: running cleanEdges on the result of cleanEdges gives
  the same edge set, the edges compared as (origin, type, destination set) triples. The
  two runs may visit their maps in different orders (\<open>rk\<close>, \<open>rt\<close> and \<open>rk2\<close>, \<open>rt2\<close>).
\<close>

theorem cleanEdges_idempotent:
  "edge_triples (cleanEdges tstr rk2 rt2 (cleanEdges tstr rk rt nl)) =
   edge_triples (cleanEdges tstr rk rt nl)"
proof (rule cleanEdges_fixpoint_triples)
  show "distinct (map (edgeKey tstr) (Edges (cleanEdges tstr rk rt nl)))"
    by (rule cleanEdges_distinct_keys)
  have "no_dangling (cleanEdges tstr rk rt nl)" by (rule cleanEdges_no_dangling)
  then show "\<forall>e \<in> set (Edges (cleanEdges tstr rk rt nl)).
      gm_has (From e) (indexNodes (cleanEdges tstr rk rt nl)) \<and>
      (\<forall>s \<in> set (To e). gm_has s (indexNodes (cleanEdges tstr rk rt nl)))"
    by (simp add: no_dangling_def node_ids_def gm_has_indexNodes)
qed

text \<open>
  C8, as the claim states it, fails. When the two lists differ in a count, Equal returns
  false before it sorts anything: the root ids b, a stay in that order. And Equal sorts
  fresh lists of flattened strings, never an edge slice: the two edges stay in the order
  b, a, where their flattened strings sort as a, b.
\<close>

theorem Equal_sorting_counterexample:
  "Equal (Edge_flatString Edge_Type_String) Node_flatString unsorted_roots (Some no_roots) =
     (False, unsorted_roots, Some no_roots) \<and>
   RootElements unsorted_roots = [''b'', ''a''] \<and>
   sort [''b'', ''a''] = [''a'', ''b''] \<and>
   Equal (Edge_flatString Edge_Type_String) Node_flatString unsorted_edges (Some unsorted_edges) =
     (True, unsorted_edges\<lparr>RootElements := [''a'', ''b'']\<rparr>,
      Some (unsorted_edges\<lparr>RootElements := [''a'', ''b'']\<rparr>)) \<and>
   map (\<lambda>e. fst (Edge_flatString Edge_Type_String e)) (Edges unsorted_edges) = [''Ib'', ''Ia''] \<and>
   sort [''Ib'', ''Ia''] = [''Ia'', ''Ib'']"
  by code_simp

text \<open>
  C8, amended. For two non-nil lists with the same numbers of edges, nodes and root ids,
  Equal sorts the root-id slice of both arguments in place; when a number differs it
  returns false and leaves both arguments as they are. Equal never reorders an edge
  slice or a node slice: each holds the same objects in the same order, an object
  changed at most by its own flatString call.
\<close>

theorem Equal_side_effects:
  assumes "Equal eflat nflat nl (Some nl2) = (r, nl', nl2')"
  shows "\<exists>m. nl2' = Some m \<and>
     (if counts_agree nl nl2
      then RootElements nl' = sort (RootElements nl) \<and> RootElements m = sort (RootElements nl2)
      else \<not> r \<and> nl' = nl \<and> m = nl2) \<and>
     (Edges nl' = Edges nl \<or> Edges nl' = map (\<lambda>e. snd (eflat e)) (Edges nl)) \<and>
     (Edges m = Edges nl2 \<or> Edges m = map (\<lambda>e. snd (eflat e)) (Edges nl2)) \<and>
     (Nodes nl' = Nodes nl \<or> Nodes nl' = map (\<lambda>n. snd (nflat n)) (Nodes nl)) \<and>
     (Nodes m = Nodes nl2 \<or> Nodes m = map (\<lambda>n. snd (nflat n)) (Nodes nl2))"
proof (cases "counts_agree nl nl2")
  case False
  then have "Equal eflat nflat nl (Some nl2) = (False, nl, Some nl2)"
    by (auto simp: Equal_def counts_agree_def)
  then show ?thesis using assms False by auto
next
  case True
  then have c: "\<not> (length (Edges nl) \<noteq> length (Edges nl2) \<or>
             length (Nodes nl) \<noteq> length (Nodes nl2) \<or>
             length (RootElements nl) \<noteq> length (RootElements nl2))"
    by (simp add: counts_agree_def)
  show ?thesis
  proof (cases "sort (RootElements nl) \<noteq> sort (RootElements nl2)")
    case r: True
    then show ?thesis using assms True c by (simp add: Equal_def Let_def) (auto)
  next
    case r: False
    show ?thesis
    proof (cases "sort (map (\<lambda>e. fst (eflat e)) (Edges nl)) \<noteq> sort (map (\<lambda>e. fst (eflat e)) (Edges nl2))")
      case e: True
      then show ?thesis using assms True c r by (simp add: Equal_def Let_def) (auto)
    next
      case e: False
      then show ?thesis using assms True c r by (simp add: Equal_def Let_def) (auto)
    qed
  qed
qed

theorem Equal_side_effects_witness:
  "Equal (Edge_flatString Edge_Type_String) Node_flatString unsorted_edges (Some unsorted_edges) =
     (True, unsorted_edges\<lparr>RootElements := [''a'', ''b'']\<rparr>,
      Some (unsorted_edges\<lparr>RootElements := [''a'', ''b'']\<rparr>)) \<and>
   counts_agree unsorted_edges unsorted_edges \<and>
   RootElements (unsorted_edges\<lparr>RootElements := [''a'', ''b'']\<rparr>) = sort (RootElements unsorted_edges)"
proof -
  have h: "Equal (Edge_flatString Edge_Type_String) Node_flatString unsorted_edges (Some unsorted_edges) =
     (True, unsorted_edges\<lparr>RootElements := [''a'', ''b'']\<rparr>,
      Some (unsorted_edges\<lparr>RootElements := [''a'', ''b'']\<rparr>))" by code_simp
  have a: "counts_agree unsorted_edges unsorted_edges" by code_simp
  have "RootElements (unsorted_edges\<lparr>RootElements := [''a'', ''b'']\<rparr>) = sort (RootElements unsorted_edges)"
    using Equal_side_effects[OF h] by (simp only: a if_True) (elim exE conjE, assumption)
  with h a show ?thesis by (intro conjI)
qed

text \<open>
  C9: the code departs from the claim and from its own comment (an empty purlType
  returns a blank nodelist). With the empty type the two prefixes are \<open>pkg:/\<close> and
  \<open>pkg://\<close>, and a package url with the extra slash starts with the first: the node
  is returned, and made a root.
\<close>

theorem GetNodesByPurlType_blank_type_matches:
  "GetNodesByPurlType Node_Purl Edge_Type_String [] insertion_order
     (Some \<lparr>Nodes = [quirk_node], Edges = [], RootElements = []\<rparr>) [] =
   \<lparr>Nodes = [quirk_node], Edges = [], RootElements = [''n'']\<rparr>"
  by code_simp

text \<open>
  C10, as the claim states it, fails: the first edge of the list has its origin a among
  the nodes and its only destination x outside them, yet sanitation returns no edge with
  an empty destination list, since the second edge of the same (origin, type) pair
  collapses with it and brings the destination b.
\<close>

theorem cleanEdges_emptied_edge_counterexample:
  "''a'' \<in> node_ids collapsing \<and> ''x'' \<notin> node_ids collapsing \<and>
   Edges collapsing = [\<lparr>Type = 1, From = ''a'', To = [''x'']\<rparr>, \<lparr>Type = 1, From = ''a'', To = [''b'']\<rparr>] \<and>
   Edges (cleanEdges Edge_Type_String [] insertion_order collapsing) =
     [\<lparr>Type = 1, From = ''a'', To = [''b'']\<rparr>]"
  by code_simp

text \<open>
  C10, amended. An edge whose origin is a node, and such that no edge of its
  (origin, type) pair has a destination among the nodes, is retained by cleanEdges as
  an edge of that pair with an empty destination list. (The hypothesis on the keys holds
  for every list when \<open>String_ok tstr\<close>.) So operations that end with sanitation can
  return edges without destinations: RemoveNodes of b from scenario A does, and
  Intersect of the scenario does.
\<close>

theorem cleanEdges_keeps_emptied_edge:
  assumes "e \<in> set (Edges nl)" and "From e \<in> node_ids nl"
    and "keys_faithful tstr (Edges nl)"
    and "no_destination_left nl e"
  shows "(\<exists>e' \<in> set (Edges (cleanEdges tstr rk rt nl)).
            From e' = From e \<and> Type e' = Type e \<and> To e' = []) \<and>
         Edges (RemoveNodes Edge_Type_String [] insertion_order scenario_A [''b'']) =
           [\<lparr>Type = 1, From = ''a'', To = []\<rparr>] \<and>
         Edges (Intersect Node_Update Edge_Type_String [] [] insertion_order scenario_A scenario_B) =
           [\<lparr>Type = 1, From = ''b'', To = []\<rparr>]"
proof -
  have r: "Edges (RemoveNodes Edge_Type_String [] insertion_order scenario_A [''b'']) =
           [\<lparr>Type = 1, From = ''a'', To = []\<rparr>]" by code_simp
  have i: "Edges (Intersect Node_Update Edge_Type_String [] [] insertion_order scenario_A scenario_B) =
           [\<lparr>Type = 1, From = ''b'', To = []\<rparr>]" by code_simp
  note g = cleanEdges_emptied_edge_retained[OF assms, of rk rt]
  show ?thesis by (rule conjI[OF g conjI[OF r i]])
qed

theorem cleanEdges_keeps_emptied_edge_witness:
  "\<lparr>Type = 1, From = ''a'', To = [''b'']\<rparr> \<in> set (Edges stranded) \<and>
   From \<lparr>Type = 1, From = ''a'', To = [''b'']\<rparr> \<in> node_ids stranded \<and>
   keys_faithful Edge_Type_String (Edges stranded) \<and>
   no_destination_left stranded \<lparr>Type = 1, From = ''a'', To = [''b'']\<rparr> \<and>
   Edges (cleanEdges Edge_Type_String [] insertion_order stranded) \<noteq> [] \<and>
   Edges (cleanEdges Edge_Type_String [] insertion_order stranded) =
     [\<lparr>Type = 1, From = ''a'', To = []\<rparr>]"
proof -
  have h1: "\<lparr>Type = 1, From = ''a'', To = [''b'']\<rparr> \<in> set (Edges stranded)" by code_simp
  have h2: "From \<lparr>Type = 1, From = ''a'', To = [''b'']\<rparr> \<in> node_ids stranded" by code_simp
  have h3: "keys_faithful Edge_Type_String (Edges stranded)" by code_simp
  have h4: "no_destination_left stranded \<lparr>Type = 1, From = ''a'', To = [''b'']\<rparr>" by code_simp
  note c = conjunct1[OF cleanEdges_keeps_emptied_edge[OF h1 h2 h3 h4, of "[]" insertion_order]]
  from c have n: "Edges (cleanEdges Edge_Type_String [] insertion_order stranded) \<noteq> []"
    by (elim bexE) (metis empty_iff list.set(1))
  have v: "Edges (cleanEdges Edge_Type_String [] insertion_order stranded) =
     [\<lparr>Type = 1, From = ''a'', To = []\<rparr>]" by code_simp
  show ?thesis by (rule conjI[OF h1 conjI[OF h2 conjI[OF h3 conjI[OF h4 conjI[OF n v]]]]])
qed

end
